theory Spec2Isabelle
  imports Complex_Main "HOL-Library.Word" "HOL-Library.AList"
begin

section \<open>Common.h: shared types\<close>

text \<open>
  \<^verbatim>\<open>OrderId = uint64_t\<close>, \<^verbatim>\<open>Quantity = uint32_t\<close>: machine words, arithmetic wraps.
  \<^verbatim>\<open>Price = double\<close>: the book only compares prices (map keys, limit checks), so a
  price is a real number here; NaN, which is not a valid key of a \<^verbatim>\<open>std::map\<close>, is
  outside the model.  \<^verbatim>\<open>Timestamp\<close> values are read from the clock and never
  inspected by the core; they are left out of the records.
\<close>

type_synonym OrderId = "64 word"
type_synonym Price = real
type_synonym Quantity = "32 word"

datatype Side = BUY | SELL

datatype OrderType = LIMIT | MARKET

datatype OrderStatus = NEW | OPEN | FILLED | PARTIAL | CANCELLED | REJECTED


section \<open>Order.h, Order.cpp: the order entity\<close>

record Order =
  m_id :: OrderId
  m_side :: Side
  m_type :: OrderType
  m_price :: Price
  m_quantity :: Quantity
  m_filledQty :: Quantity
  m_status :: OrderStatus

text \<open>The five-argument constructor \<^verbatim>\<open>Order::Order\<close>.\<close>

definition Order_ctor :: "OrderId \<Rightarrow> Side \<Rightarrow> OrderType \<Rightarrow> Price \<Rightarrow> Quantity \<Rightarrow> Order" where
  "Order_ctor i s t p q =
     \<lparr>m_id = i, m_side = s, m_type = t, m_price = p, m_quantity = q,
      m_filledQty = 0, m_status = NEW\<rparr>"

text \<open>\<^verbatim>\<open>getRemainingQty\<close> is an unsigned subtraction: it wraps if ever filled > quantity.\<close>

definition getRemainingQty :: "Order \<Rightarrow> Quantity" where
  "getRemainingQty ord = m_quantity ord - m_filledQty ord"

definition isActive :: "Order \<Rightarrow> bool" where
  "isActive ord \<longleftrightarrow> m_status ord = NEW \<or> m_status ord = OPEN \<or> m_status ord = PARTIAL"

definition isFilled :: "Order \<Rightarrow> bool" where
  "isFilled ord \<longleftrightarrow> m_status ord = FILLED"

text \<open>
  The mutating members return the \<^verbatim>\<open>bool\<close> of the source together with the
  object after the call.
\<close>

definition fill :: "Quantity \<Rightarrow> Order \<Rightarrow> bool \<times> Order" where
  "fill qty ord =
     (if qty > getRemainingQty ord then (False, ord)
      else
        let ord1 = ord\<lparr>m_filledQty := m_filledQty ord + qty\<rparr>
        in (True,
            if m_filledQty ord1 = m_quantity ord1 then ord1\<lparr>m_status := FILLED\<rparr>
            else if m_filledQty ord1 > 0 then ord1\<lparr>m_status := PARTIAL\<rparr>
            else ord1))"

definition cancel :: "Order \<Rightarrow> Order" where
  "cancel ord = (if isActive ord then ord\<lparr>m_status := CANCELLED\<rparr> else ord)"

definition modifyPrice :: "Price \<Rightarrow> Order \<Rightarrow> bool \<times> Order" where
  "modifyPrice newPrice ord =
     (if m_type ord \<noteq> LIMIT \<or> m_filledQty ord > 0 then (False, ord)
      else (True, ord\<lparr>m_price := newPrice\<rparr>))"

definition modifyQuantity :: "Quantity \<Rightarrow> Order \<Rightarrow> bool \<times> Order" where
  "modifyQuantity newQuantity ord =
     (if newQuantity < m_filledQty ord then (False, ord)
      else
        let ord1 = ord\<lparr>m_quantity := newQuantity\<rparr>
        in (True,
            if m_filledQty ord1 = m_quantity ord1 then ord1\<lparr>m_status := FILLED\<rparr>
            else ord1))"

subsection \<open>Sequences of operations on one order\<close>

datatype OrderOp =
    OpFill Quantity
  | OpCancel
  | OpModifyPrice Price
  | OpModifyQuantity Quantity

fun apply_op :: "OrderOp \<Rightarrow> Order \<Rightarrow> Order" where
  "apply_op (OpFill q) ord = snd (fill q ord)"
| "apply_op OpCancel ord = cancel ord"
| "apply_op (OpModifyPrice p) ord = snd (modifyPrice p ord)"
| "apply_op (OpModifyQuantity q) ord = snd (modifyQuantity q ord)"

fun run_ops :: "OrderOp list \<Rightarrow> Order \<Rightarrow> Order" where
  "run_ops [] ord = ord"
| "run_ops (x # xs) ord = run_ops xs (apply_op x ord)"

text \<open>
  A run is \<open>gated\<close> when it never raises the quantity of an order whose status is
  already FILLED.  This is the discipline of the book, whose
  \<^verbatim>\<open>modifyOrderQuantity\<close> tests \<^verbatim>\<open>isActive\<close> before it calls
  \<^verbatim>\<open>Order::modifyQuantity\<close>.
\<close>

fun gated :: "OrderOp list \<Rightarrow> Order \<Rightarrow> bool" where
  "gated [] ord = True"
| "gated (x # xs) ord =
     ((case x of
         OpModifyQuantity q \<Rightarrow> \<not> (m_status ord = FILLED \<and> m_filledQty ord < q)
       | _ \<Rightarrow> True)
      \<and> gated xs (apply_op x ord))"

definition status_ok :: "Order \<Rightarrow> bool" where
  "status_ok ord \<longleftrightarrow> (m_status ord = FILLED \<longleftrightarrow> m_filledQty ord = m_quantity ord)"

definition terminal :: "Order \<Rightarrow> bool" where
  "terminal ord \<longleftrightarrow> m_status ord = FILLED \<or> m_status ord = CANCELLED"


section \<open>OrderQueue.h, OrderQueue.cpp: the order queue, one thread at a time\<close>

text \<open>
  The queue is modelled as seen by a single caller with no other thread running:
  a call that would wait on the condition variable for ever is the outcome
  \<open>Blocks\<close>; a timed wait whose predicate is false at entry runs into its timeout.
\<close>

record OrderQueue =
  m_queue :: "Order list"
  m_shutdown :: bool

datatype 'a outcome = Blocks | Returns 'a

definition OrderQueue_ctor :: OrderQueue where
  "OrderQueue_ctor = \<lparr>m_queue = [], m_shutdown = False\<rparr>"

definition push :: "Order \<Rightarrow> OrderQueue \<Rightarrow> OrderQueue" where
  "push ord q = q\<lparr>m_queue := m_queue q @ [ord]\<rparr>"

definition pop :: "OrderQueue \<Rightarrow> (Order option \<times> OrderQueue) outcome" where
  "pop q =
     (if \<not> (m_queue q \<noteq> [] \<or> m_shutdown q) then Blocks
      else if m_shutdown q \<and> m_queue q = [] then Returns (None, q)
      else Returns (Some (hd (m_queue q)), q\<lparr>m_queue := tl (m_queue q)\<rparr>))"

definition tryPop :: "OrderQueue \<Rightarrow> Order option \<times> OrderQueue" where
  "tryPop q =
     (if m_queue q = [] then (None, q)
      else (Some (hd (m_queue q)), q\<lparr>m_queue := tl (m_queue q)\<rparr>))"

definition popWithTimeout :: "int \<Rightarrow> OrderQueue \<Rightarrow> Order option \<times> OrderQueue" where
  "popWithTimeout timeoutMs q =
     (let gotItem = (m_queue q \<noteq> [] \<or> m_shutdown q)
      in if \<not> gotItem \<or> (m_shutdown q \<and> m_queue q = []) then (None, q)
         else (Some (hd (m_queue q)), q\<lparr>m_queue := tl (m_queue q)\<rparr>))"

definition empty_q :: "OrderQueue \<Rightarrow> bool" where
  "empty_q q \<longleftrightarrow> m_queue q = []"

definition size_q :: "OrderQueue \<Rightarrow> nat" where
  "size_q q = length (m_queue q)"

definition clear_q :: "OrderQueue \<Rightarrow> OrderQueue" where
  "clear_q q = q\<lparr>m_queue := []\<rparr>"

definition shutdown :: "OrderQueue \<Rightarrow> OrderQueue" where
  "shutdown q = q\<lparr>m_shutdown := True\<rparr>"

definition isShutdown :: "OrderQueue \<Rightarrow> bool" where
  "isShutdown q \<longleftrightarrow> m_shutdown q"

text \<open>Draining a queue with repeated \<^verbatim>\<open>pop\<close> calls, at most \<open>n\<close> of them.\<close>

fun drain :: "nat \<Rightarrow> OrderQueue \<Rightarrow> Order list \<times> OrderQueue" where
  "drain 0 q = ([], q)"
| "drain (Suc n) q =
     (case pop q of
        Blocks \<Rightarrow> ([], q)
      | Returns (None, q') \<Rightarrow> ([], q')
      | Returns (Some ord, q') \<Rightarrow> (let (xs, q'') = drain n q' in (ord # xs, q'')))"


section \<open>OrderBook.h, OrderBook.cpp: the order book\<close>

subsection \<open>The free store\<close>

text \<open>
  The book owns its orders through raw pointers: \<^verbatim>\<open>new Order(order)\<close> in
  \<^verbatim>\<open>addOrder\<close>, \<^verbatim>\<open>delete order\<close> in \<^verbatim>\<open>fillQuantityAtPrice\<close>.  The same
  object is reached from the id index and from its price level, so the model keeps an
  explicit store: an \<^verbatim>\<open>Order*\<close> is an address, the store maps the addresses of live
  objects to their contents, and \<open>brk\<close> is the next address \<^verbatim>\<open>new\<close> hands out.
  Reading through a pointer to a deleted object is undefined behaviour in C++; in the
  model it reads \<open>the None\<close>, about which nothing can be proved.  The book invariant
  \<open>book_inv\<close> below excludes it.
\<close>

type_synonym addr = nat

type_synonym store = "addr \<Rightarrow> Order option"

definition deref :: "store \<Rightarrow> addr \<Rightarrow> Order" where
  "deref h a = the (h a)"

subsection \<open>\<^verbatim>\<open>std::map\<close> with a comparator, as a list of entries in iteration order\<close>

text \<open>
  \<open>map_put lt k v\<close> is what \<^verbatim>\<open>m[k] = v\<close> does on a \<^verbatim>\<open>std::map\<close> ordered by
  \<open>lt\<close>: it replaces the entry with an equivalent key or links a new entry at its
  place in the order.  \<^verbatim>\<open>find\<close> is \<^const>\<open>map_of\<close>, \<^verbatim>\<open>erase\<close> is
  \<^const>\<open>AList.delete\<close>, \<^verbatim>\<open>size\<close> is \<^const>\<open>length\<close>, \<^verbatim>\<open>begin\<close> is the head.
\<close>

fun map_put :: "('k \<Rightarrow> 'k \<Rightarrow> bool) \<Rightarrow> 'k \<Rightarrow> 'v \<Rightarrow> ('k \<times> 'v) list \<Rightarrow> ('k \<times> 'v) list" where
  "map_put lt k v [] = [(k, v)]"
| "map_put lt k v ((k', v') # kvs) =
     (if lt k k' then (k, v) # (k', v') # kvs
      else if lt k' k then (k', v') # map_put lt k v kvs
      else (k, v) # kvs)"

text \<open>\<^verbatim>\<open>std::greater<Price>\<close> orders the bids, \<^verbatim>\<open>std::less<Price>\<close> the asks.\<close>

definition greater_price :: "Price \<Rightarrow> Price \<Rightarrow> bool" where
  "greater_price a b \<longleftrightarrow> a > b"

definition less_price :: "Price \<Rightarrow> Price \<Rightarrow> bool" where
  "less_price a b \<longleftrightarrow> a < b"

subsection \<open>PriceLevel\<close>

record PriceLevel =
  price :: Price
  totalQuantity :: Quantity
  orders :: "addr list"

definition PriceLevel_addOrder :: "store \<Rightarrow> addr \<Rightarrow> PriceLevel \<Rightarrow> PriceLevel" where
  "PriceLevel_addOrder h a level =
     level\<lparr>orders := orders level @ [a],
           totalQuantity := totalQuantity level + getRemainingQty (deref h a)\<rparr>"

text \<open>\<^verbatim>\<open>std::find\<close> stops at the first occurrence of the pointer, which is erased.\<close>

definition PriceLevel_removeOrder :: "store \<Rightarrow> addr \<Rightarrow> PriceLevel \<Rightarrow> PriceLevel" where
  "PriceLevel_removeOrder h a level =
     (if a \<in> set (orders level)
      then level\<lparr>totalQuantity := totalQuantity level - getRemainingQty (deref h a),
                 orders := remove1 a (orders level)\<rparr>
      else level)"

definition isEmpty :: "PriceLevel \<Rightarrow> bool" where
  "isEmpty level \<longleftrightarrow> orders level = []"

subsection \<open>OrderBook\<close>

text \<open>
  \<open>m_orderMap\<close> is the \<^verbatim>\<open>unordered_map<OrderId, Order*>\<close>, a list of entries with
  \<^const>\<open>map_of\<close> for \<^verbatim>\<open>find\<close>, \<^const>\<open>AList.update\<close> for \<^verbatim>\<open>m[k] = v\<close> and
  \<^const>\<open>AList.delete\<close> for \<^verbatim>\<open>erase\<close>.  The mutex serialises the public members;
  each is one atomic step of the model.
\<close>

record OrderBook =
  m_bids :: "(Price \<times> PriceLevel) list"
  m_asks :: "(Price \<times> PriceLevel) list"
  m_orderMap :: "(OrderId \<times> addr) list"
  heap :: store
  brk :: addr

definition OrderBook_ctor :: OrderBook where
  "OrderBook_ctor = \<lparr>m_bids = [], m_asks = [], m_orderMap = [], heap = (\<lambda>a. None), brk = 0\<rparr>"

text \<open>
  \<^verbatim>\<open>addToBook\<close>: the level is created if \<^verbatim>\<open>find\<close> misses it, then
  \<^verbatim>\<open>m_bids[price].addOrder(order)\<close> updates the entry in place.
\<close>

definition addToBook :: "addr \<Rightarrow> OrderBook \<Rightarrow> OrderBook" where
  "addToBook a b =
     (let p = m_price (deref (heap b) a)
      in if m_side (deref (heap b) a) = BUY then
           (let level = (case map_of (m_bids b) p of
                           None \<Rightarrow> \<lparr>price = p, totalQuantity = 0, orders = []\<rparr>
                         | Some l \<Rightarrow> l)
            in b\<lparr>m_bids := map_put greater_price p (PriceLevel_addOrder (heap b) a level) (m_bids b)\<rparr>)
         else
           (let level = (case map_of (m_asks b) p of
                           None \<Rightarrow> \<lparr>price = p, totalQuantity = 0, orders = []\<rparr>
                         | Some l \<Rightarrow> l)
            in b\<lparr>m_asks := map_put less_price p (PriceLevel_addOrder (heap b) a level) (m_asks b)\<rparr>))"

definition removeFromBook :: "addr \<Rightarrow> OrderBook \<Rightarrow> OrderBook" where
  "removeFromBook a b =
     (let p = m_price (deref (heap b) a)
      in if m_side (deref (heap b) a) = BUY then
           (case map_of (m_bids b) p of
              None \<Rightarrow> b
            | Some l \<Rightarrow>
                (let level = PriceLevel_removeOrder (heap b) a l
                 in if isEmpty level then b\<lparr>m_bids := AList.delete p (m_bids b)\<rparr>
                    else b\<lparr>m_bids := map_put greater_price p level (m_bids b)\<rparr>))
         else
           (case map_of (m_asks b) p of
              None \<Rightarrow> b
            | Some l \<Rightarrow>
                (let level = PriceLevel_removeOrder (heap b) a l
                 in if isEmpty level then b\<lparr>m_asks := AList.delete p (m_asks b)\<rparr>
                    else b\<lparr>m_asks := map_put less_price p level (m_asks b)\<rparr>)))"

definition clear :: "OrderBook \<Rightarrow> OrderBook" where
  "clear b =
     b\<lparr>heap := (\<lambda>a. if a \<in> snd ` set (m_orderMap b) then None else heap b a),
       m_orderMap := [], m_bids := [], m_asks := []\<rparr>"

definition addOrder :: "Order \<Rightarrow> OrderBook \<Rightarrow> bool \<times> OrderBook" where
  "addOrder ord b =
     (if map_of (m_orderMap b) (m_id ord) \<noteq> None then (False, b)
      else
        let newOrder = brk b;
            b1 = b\<lparr>heap := (heap b)(newOrder \<mapsto> ord), brk := Suc (brk b)\<rparr>;
            b2 = b1\<lparr>m_orderMap := AList.update (m_id ord) newOrder (m_orderMap b1)\<rparr>
        in (True, addToBook newOrder b2))"

definition cancelOrder :: "OrderId \<Rightarrow> OrderBook \<Rightarrow> bool \<times> OrderBook" where
  "cancelOrder orderId b =
     (case map_of (m_orderMap b) orderId of
        None \<Rightarrow> (False, b)
      | Some a \<Rightarrow>
          if \<not> isActive (deref (heap b) a) then (False, b)
          else
            let b1 = removeFromBook a b
            in (True, b1\<lparr>heap := (heap b1)(a \<mapsto> cancel (deref (heap b1) a))\<rparr>))"

definition modifyOrderPrice :: "OrderId \<Rightarrow> Price \<Rightarrow> OrderBook \<Rightarrow> bool \<times> OrderBook" where
  "modifyOrderPrice orderId newPrice b =
     (case map_of (m_orderMap b) orderId of
        None \<Rightarrow> (False, b)
      | Some a \<Rightarrow>
          if \<not> isActive (deref (heap b) a) then (False, b)
          else
            let b1 = removeFromBook a b;
                r = modifyPrice newPrice (deref (heap b1) a)
            in if \<not> fst r then (False, addToBook a b1)
               else (True, addToBook a (b1\<lparr>heap := (heap b1)(a \<mapsto> snd r)\<rparr>)))"

definition modifyOrderQuantity :: "OrderId \<Rightarrow> Quantity \<Rightarrow> OrderBook \<Rightarrow> bool \<times> OrderBook" where
  "modifyOrderQuantity orderId newQuantity b =
     (case map_of (m_orderMap b) orderId of
        None \<Rightarrow> (False, b)
      | Some a \<Rightarrow>
          if \<not> isActive (deref (heap b) a) then (False, b)
          else
            let oldRemaining = getRemainingQty (deref (heap b) a);
                r = modifyQuantity newQuantity (deref (heap b) a)
            in if \<not> fst r then (False, b)
               else
                 let b1 = b\<lparr>heap := (heap b)(a \<mapsto> snd r)\<rparr>;
                     newRemaining = getRemainingQty (snd r);
                     diff = newRemaining - oldRemaining;
                     p = m_price (snd r)
                 in if m_side (snd r) = BUY then
                      (case map_of (m_bids b1) p of
                         None \<Rightarrow> (True, b1)
                       | Some l \<Rightarrow>
                           (True, b1\<lparr>m_bids := map_put greater_price p
                                      (l\<lparr>totalQuantity := totalQuantity l + diff\<rparr>) (m_bids b1)\<rparr>))
                    else
                      (case map_of (m_asks b1) p of
                         None \<Rightarrow> (True, b1)
                       | Some l \<Rightarrow>
                           (True, b1\<lparr>m_asks := map_put less_price p
                                      (l\<lparr>totalQuantity := totalQuantity l + diff\<rparr>) (m_asks b1)\<rparr>)))"

definition getOrder :: "OrderId \<Rightarrow> OrderBook \<Rightarrow> addr option" where
  "getOrder orderId b = map_of (m_orderMap b) orderId"

definition getBestBid :: "OrderBook \<Rightarrow> Price option" where
  "getBestBid b = (case m_bids b of [] \<Rightarrow> None | (p, l) # rest \<Rightarrow> Some p)"

definition getBestAsk :: "OrderBook \<Rightarrow> Price option" where
  "getBestAsk b = (case m_asks b of [] \<Rightarrow> None | (p, l) # rest \<Rightarrow> Some p)"

definition getQuantityAtPrice :: "Side \<Rightarrow> Price \<Rightarrow> OrderBook \<Rightarrow> Quantity" where
  "getQuantityAtPrice side p b =
     (if side = BUY then (case map_of (m_bids b) p of Some l \<Rightarrow> totalQuantity l | None \<Rightarrow> 0)
      else (case map_of (m_asks b) p of Some l \<Rightarrow> totalQuantity l | None \<Rightarrow> 0))"


text \<open>
  The loop of \<^verbatim>\<open>fillQuantityAtPrice\<close>.  It ends because every turn either pops the
  front order or brings \<open>filled\<close> up to \<open>quantity\<close>; the two facts about
  \<^const>\<open>fill\<close> that the argument uses come first.
\<close>

lemma fill_success:
  "qty \<le> getRemainingQty ord \<Longrightarrow>
   fill qty ord =
     (True, ord\<lparr>m_filledQty := m_filledQty ord + qty,
                 m_status := (if m_filledQty ord + qty = m_quantity ord then FILLED
                              else if m_filledQty ord + qty > 0 then PARTIAL
                              else m_status ord)\<rparr>)"
  by (simp add: fill_def Let_def)

lemma fill_remaining:
  "qty \<le> getRemainingQty ord \<Longrightarrow>
   getRemainingQty (snd (fill qty ord)) = getRemainingQty ord - qty"
  by (simp add: fill_success) (simp add: getRemainingQty_def diff_diff_eq)

function fillLoop ::
  "Quantity \<Rightarrow> store \<Rightarrow> (OrderId \<times> addr) list \<Rightarrow> PriceLevel \<Rightarrow> Quantity
     \<Rightarrow> store \<times> (OrderId \<times> addr) list \<times> PriceLevel \<times> Quantity" where
  "fillLoop quantity h om level filled =
     (if orders level \<noteq> [] \<and> filled < quantity then
        (let a = hd (orders level);
             orderRemaining = getRemainingQty (deref h a);
             toFill = min orderRemaining (quantity - filled);
             h1 = h(a \<mapsto> snd (fill toFill (deref h a)));
             level1 = level\<lparr>totalQuantity := totalQuantity level - toFill\<rparr>;
             filled1 = filled + toFill
         in if getRemainingQty (deref h1 a) = 0
            then fillLoop quantity (h1(a := None)) (AList.delete (m_id (deref h1 a)) om)
                   (level1\<lparr>orders := tl (orders level1)\<rparr>) filled1
            else fillLoop quantity h1 om level1 filled1)
      else (h, om, level, filled))"
  by pat_completeness auto
termination
proof (relation "measures [\<lambda>(q, h, om, l, f). length (orders l),
                           \<lambda>(q, h, om, l, f). unat (q - f)]", goal_cases)
  case 1
  then show ?case by simp
next
  case (2 quantity h om level filled a orderRemaining toFill h1 level1 filled1)
  then show ?case by simp
next
  case (3 quantity h om level filled a orderRemaining toFill h1 level1 filled1)
  have le: "toFill \<le> getRemainingQty (deref h a)" using 3 by simp
  have "getRemainingQty (deref h1 a) = getRemainingQty (deref h a) - toFill"
    using 3 fill_remaining[OF le] by (simp add: deref_def)
  with 3 have "toFill \<noteq> orderRemaining" by auto
  with 3 have tf: "toFill = quantity - filled" by (auto simp: min_def split: if_splits)
  have "quantity - filled \<noteq> 0" using 3 by auto
  then have "0 < unat (quantity - filled)" by (simp add: unat_gt_0)
  with 3 tf show ?case by simp
qed

declare fillLoop.simps [simp del]

definition fillQuantityAtPrice :: "Side \<Rightarrow> Price \<Rightarrow> Quantity \<Rightarrow> OrderBook \<Rightarrow> Quantity \<times> OrderBook" where
  "fillQuantityAtPrice side p quantity b =
     (if side = BUY then
        (case map_of (m_bids b) p of
           None \<Rightarrow> (0, b)
         | Some l \<Rightarrow>
             (case fillLoop quantity (heap b) (m_orderMap b) l 0 of
                (h, om, level, filled) \<Rightarrow>
                  if totalQuantity level = 0 \<or> orders level = []
                  then (filled, b\<lparr>heap := h, m_orderMap := om, m_bids := AList.delete p (m_bids b)\<rparr>)
                  else (filled, b\<lparr>heap := h, m_orderMap := om,
                                  m_bids := map_put greater_price p level (m_bids b)\<rparr>)))
      else
        (case map_of (m_asks b) p of
           None \<Rightarrow> (0, b)
         | Some l \<Rightarrow>
             (case fillLoop quantity (heap b) (m_orderMap b) l 0 of
                (h, om, level, filled) \<Rightarrow>
                  if totalQuantity level = 0 \<or> orders level = []
                  then (filled, b\<lparr>heap := h, m_orderMap := om, m_asks := AList.delete p (m_asks b)\<rparr>)
                  else (filled, b\<lparr>heap := h, m_orderMap := om,
                                  m_asks := map_put less_price p level (m_asks b)\<rparr>))))"

definition getTopBids :: "nat \<Rightarrow> OrderBook \<Rightarrow> (Price \<times> Quantity) list" where
  "getTopBids n b = take n (map (\<lambda>(p, l). (p, totalQuantity l)) (m_bids b))"

definition getTopAsks :: "nat \<Rightarrow> OrderBook \<Rightarrow> (Price \<times> Quantity) list" where
  "getTopAsks n b = take n (map (\<lambda>(p, l). (p, totalQuantity l)) (m_asks b))"

definition getBidLevelCount :: "OrderBook \<Rightarrow> nat" where
  "getBidLevelCount b = length (m_bids b)"

definition getAskLevelCount :: "OrderBook \<Rightarrow> nat" where
  "getAskLevelCount b = length (m_asks b)"

definition getTotalOrderCount :: "OrderBook \<Rightarrow> nat" where
  "getTotalOrderCount b = length (m_orderMap b)"


section \<open>MatchingEngine.h, MatchingEngine.cpp: the matching engine\<close>

text \<open>
  The engine holds a reference to the book, its counters and the registered callbacks.
  A callback is an opaque \<^verbatim>\<open>std::function\<close> that receives each trade; callbacks are
  taken not to call back into the book, and the list of trades returned is what they see.
  The incoming order is the caller's object, passed by reference: the functions return
  it as it is after the call.
\<close>

record Trade =
  buyOrderId :: OrderId
  sellOrderId :: OrderId
  tradePrice :: Price
  tradeQuantity :: Quantity

record MatchingEngine =
  m_tradeCount :: "64 word"
  m_totalVolume :: Quantity

type_synonym match_state = "OrderBook \<times> MatchingEngine \<times> Order \<times> Trade list"

text \<open>The range-for loops of \<^verbatim>\<open>matchBuyOrder\<close> and \<^verbatim>\<open>matchSellOrder\<close> over the snapshot.\<close>

fun matchBuyLoop :: "(Price \<times> Quantity) list \<Rightarrow> match_state \<Rightarrow> match_state" where
  "matchBuyLoop [] st = st"
| "matchBuyLoop ((askPrice, askQty) # rest) (b, eng, ord, trades) =
     (if getRemainingQty ord = 0 then (b, eng, ord, trades)
      else if m_type ord = LIMIT \<and> askPrice > m_price ord then (b, eng, ord, trades)
      else
        let matchQty = min (getRemainingQty ord) askQty;
            r = fillQuantityAtPrice SELL askPrice matchQty b;
            actualFilled = fst r
        in if actualFilled = 0 then matchBuyLoop rest (snd r, eng, ord, trades)
           else
             let ord1 = snd (fill actualFilled ord);
                 trade = \<lparr>buyOrderId = m_id ord1, sellOrderId = 0,
                          tradePrice = askPrice, tradeQuantity = actualFilled\<rparr>;
                 eng1 = eng\<lparr>m_tradeCount := m_tradeCount eng + 1,
                            m_totalVolume := m_totalVolume eng + actualFilled\<rparr>
             in matchBuyLoop rest (snd r, eng1, ord1, trades @ [trade]))"

fun matchSellLoop :: "(Price \<times> Quantity) list \<Rightarrow> match_state \<Rightarrow> match_state" where
  "matchSellLoop [] st = st"
| "matchSellLoop ((bidPrice, bidQty) # rest) (b, eng, ord, trades) =
     (if getRemainingQty ord = 0 then (b, eng, ord, trades)
      else if m_type ord = LIMIT \<and> bidPrice < m_price ord then (b, eng, ord, trades)
      else
        let matchQty = min (getRemainingQty ord) bidQty;
            r = fillQuantityAtPrice BUY bidPrice matchQty b;
            actualFilled = fst r
        in if actualFilled = 0 then matchSellLoop rest (snd r, eng, ord, trades)
           else
             let ord1 = snd (fill actualFilled ord);
                 trade = \<lparr>buyOrderId = 0, sellOrderId = m_id ord1,
                          tradePrice = bidPrice, tradeQuantity = actualFilled\<rparr>;
                 eng1 = eng\<lparr>m_tradeCount := m_tradeCount eng + 1,
                            m_totalVolume := m_totalVolume eng + actualFilled\<rparr>
             in matchSellLoop rest (snd r, eng1, ord1, trades @ [trade]))"

definition matchBuyOrder :: "Order \<Rightarrow> OrderBook \<Rightarrow> MatchingEngine \<Rightarrow> match_state" where
  "matchBuyOrder ord b eng = matchBuyLoop (getTopAsks 100 b) (b, eng, ord, [])"

definition matchSellOrder :: "Order \<Rightarrow> OrderBook \<Rightarrow> MatchingEngine \<Rightarrow> match_state" where
  "matchSellOrder ord b eng = matchSellLoop (getTopBids 100 b) (b, eng, ord, [])"

definition processOrder :: "Order \<Rightarrow> OrderBook \<Rightarrow> MatchingEngine \<Rightarrow> match_state" where
  "processOrder ord b eng =
     (case (if m_side ord = BUY then matchBuyOrder ord b eng else matchSellOrder ord b eng) of
        (b1, eng1, ord1, trades) \<Rightarrow>
          if getRemainingQty ord1 > 0 \<and> m_type ord1 = LIMIT
          then (snd (addOrder ord1 b1), eng1, ord1, trades)
          else (b1, eng1, ord1, trades))"



section \<open>The invariant of the book\<close>

text \<open>
  What the members of \<^verbatim>\<open>OrderBook\<close> maintain between calls.  The two maps are
  ordered by their comparators.  The id index has one entry per id; each entry points
  to a live object that carries this id, and no two entries share an object.  A level
  is never empty, lists each order once, lists only orders of the index whose side
  and price are the level's, and caches the sum of their remaining quantities (the sum
  of \<^verbatim>\<open>uint32_t\<close> values, which wraps like the cache does).
\<close>

definition level_ok :: "store \<Rightarrow> (OrderId \<times> addr) list \<Rightarrow> Side \<Rightarrow> Price \<times> PriceLevel \<Rightarrow> bool" where
  "level_ok h om s e \<longleftrightarrow>
     price (snd e) = fst e \<and>
     orders (snd e) \<noteq> [] \<and>
     distinct (orders (snd e)) \<and>
     (\<forall>a \<in> set (orders (snd e)).
         a \<in> snd ` set om \<and> m_side (deref h a) = s \<and> m_price (deref h a) = fst e) \<and>
     totalQuantity (snd e) = sum_list (map (\<lambda>a. getRemainingQty (deref h a)) (orders (snd e)))"

definition side_lt :: "Side \<Rightarrow> Price \<Rightarrow> Price \<Rightarrow> bool" where
  "side_lt s = (if s = BUY then greater_price else less_price)"

definition side_inv :: "store \<Rightarrow> (OrderId \<times> addr) list \<Rightarrow> Side \<Rightarrow> (Price \<times> PriceLevel) list \<Rightarrow> bool" where
  "side_inv h om s m \<longleftrightarrow>
     sorted_wrt (side_lt s) (map fst m) \<and> (\<forall>e \<in> set m. level_ok h om s e)"

definition index_inv :: "store \<Rightarrow> (OrderId \<times> addr) list \<Rightarrow> addr \<Rightarrow> bool" where
  "index_inv h om n \<longleftrightarrow>
     distinct (map fst om) \<and> distinct (map snd om) \<and>
     (\<forall>e \<in> set om. snd e < n \<and> (case h (snd e) of None \<Rightarrow> False | Some ord \<Rightarrow> m_id ord = fst e))"

definition book_inv :: "OrderBook \<Rightarrow> bool" where
  "book_inv b \<longleftrightarrow>
     index_inv (heap b) (m_orderMap b) (brk b) \<and>
     side_inv (heap b) (m_orderMap b) BUY (m_bids b) \<and>
     side_inv (heap b) (m_orderMap b) SELL (m_asks b)"

text \<open>The side of the book an order of side \<open>s\<close> rests on, and its replacement.\<close>

definition side_levels :: "Side \<Rightarrow> OrderBook \<Rightarrow> (Price \<times> PriceLevel) list" where
  "side_levels s b = (if s = BUY then m_bids b else m_asks b)"

definition set_side_levels :: "Side \<Rightarrow> (Price \<times> PriceLevel) list \<Rightarrow> OrderBook \<Rightarrow> OrderBook" where
  "set_side_levels s m b = (if s = BUY then b\<lparr>m_bids := m\<rparr> else b\<lparr>m_asks := m\<rparr>)"

text \<open>The price levels, by side and price, whose list holds the pointer \<open>a\<close>.\<close>

definition levels_of :: "addr \<Rightarrow> OrderBook \<Rightarrow> (Side \<times> Price) list" where
  "levels_of a b =
     map (\<lambda>e. (BUY, fst e)) (filter (\<lambda>e. a \<in> set (orders (snd e))) (m_bids b)) @
     map (\<lambda>e. (SELL, fst e)) (filter (\<lambda>e. a \<in> set (orders (snd e))) (m_asks b))"

text \<open>A strict linear order, as \<^verbatim>\<open>std::map\<close> requires of its comparator.\<close>

definition strict_lin :: "('k \<Rightarrow> 'k \<Rightarrow> bool) \<Rightarrow> bool" where
  "strict_lin lt \<longleftrightarrow>
     (\<forall>x. \<not> lt x x) \<and> (\<forall>x y z. lt x y \<longrightarrow> lt y z \<longrightarrow> lt x z) \<and> (\<forall>x y. lt x y \<or> x = y \<or> lt y x)"


section \<open>Consuming a level front to back\<close>

text \<open>
  The reading of ``strict FIFO'' against which the fill loop is checked.  Given the
  quantity still wanted and the remaining quantities of the orders of a level in
  arrival order, \<open>consumed\<close> is the number of orders at the front that are used up
  whole: the next order is used up as long as something is still wanted and the order
  holds no more than that.
\<close>

fun consumed :: "nat \<Rightarrow> nat list \<Rightarrow> nat" where
  "consumed n [] = 0"
| "consumed n (r # rs) = (if n = 0 then 0 else if r \<le> n then Suc (consumed (n - r) rs) else 0)"

text \<open>The remaining quantities of the listed orders, as unbounded numbers.\<close>

definition remaining_of :: "store \<Rightarrow> addr list \<Rightarrow> nat list" where
  "remaining_of h os = map (\<lambda>a. unat (getRemainingQty (deref h a))) os"

text \<open>The ids of the listed orders.\<close>

definition ids_of :: "store \<Rightarrow> addr list \<Rightarrow> OrderId list" where
  "ids_of h os = map (\<lambda>a. m_id (deref h a)) os"


section \<open>Example states\<close>

text \<open>Concrete orders, queues and books on which the theorems below are exercised.\<close>

definition filled_example :: Order where
  "filled_example = snd (fill 100 (Order_ctor 1 BUY LIMIT 100 100))"

definition filled_book :: OrderBook where
  "filled_book = \<lparr>m_bids = [], m_asks = [], m_orderMap = [(1, 0)],
                  heap = (\<lambda>a. None)(0 \<mapsto> filled_example), brk = 1\<rparr>"

definition cancelled_example :: Order where
  "cancelled_example = cancel (Order_ctor 1 BUY LIMIT 100 10)"

definition raised_example :: Order where
  "raised_example = run_ops [OpFill 10, OpModifyQuantity 20] (Order_ctor 1 BUY LIMIT 100 10)"

definition zero_example :: Order where
  "zero_example = Order_ctor 2 BUY LIMIT 100 0"

definition queue_example :: OrderQueue where
  "queue_example =
     push (Order_ctor 2 SELL LIMIT 101 5) (push (Order_ctor 1 BUY LIMIT 100 10) OrderQueue_ctor)"

text \<open>
  A book with two bids at 100 (order 1, of which 20 of 50 are filled, ahead of order 2)
  and one ask at 101 (order 3).
\<close>

definition book_example :: OrderBook where
  "book_example =
     \<lparr>m_bids = [(100, \<lparr>price = 100, totalQuantity = 80, orders = [10, 11]\<rparr>)],
      m_asks = [(101, \<lparr>price = 101, totalQuantity = 75, orders = [12]\<rparr>)],
      m_orderMap = [(1, 10), (2, 11), (3, 12)],
      heap = (\<lambda>a. None)
        (10 \<mapsto> \<lparr>m_id = 1, m_side = BUY, m_type = LIMIT, m_price = 100, m_quantity = 50,
                  m_filledQty = 20, m_status = PARTIAL\<rparr>,
         11 \<mapsto> \<lparr>m_id = 2, m_side = BUY, m_type = LIMIT, m_price = 100, m_quantity = 50,
                  m_filledQty = 0, m_status = NEW\<rparr>,
         12 \<mapsto> \<lparr>m_id = 3, m_side = SELL, m_type = LIMIT, m_price = 101, m_quantity = 75,
                  m_filledQty = 0, m_status = NEW\<rparr>),
      brk = 13\<rparr>"


section \<open>Properties of the order entity\<close>

lemma fill_unchanged_on_failure: "\<not> fst (fill qty ord) \<Longrightarrow> snd (fill qty ord) = ord"
  by (auto simp: fill_def Let_def)

lemma modifyPrice_unchanged_on_failure:
  "\<not> fst (modifyPrice p ord) \<Longrightarrow> snd (modifyPrice p ord) = ord"
  by (auto simp: modifyPrice_def)

lemma modifyQuantity_unchanged_on_failure:
  "\<not> fst (modifyQuantity q ord) \<Longrightarrow> snd (modifyQuantity q ord) = ord"
  by (auto simp: modifyQuantity_def Let_def)

lemma cancel_terminal: "terminal ord \<Longrightarrow> cancel ord = ord"
  by (auto simp: terminal_def cancel_def isActive_def)

lemma terminal_not_active: "terminal ord \<Longrightarrow> \<not> isActive ord"
  by (auto simp: terminal_def isActive_def)

lemma fill_filled_order:
  "m_status ord = FILLED \<Longrightarrow> m_filledQty ord = m_quantity ord \<Longrightarrow> snd (fill qty ord) = ord"
  by (auto simp: fill_def Let_def getRemainingQty_def word_gt_0)

lemma modifyPrice_filled_order:
  "m_filledQty ord = m_quantity ord \<Longrightarrow> 0 < m_quantity ord \<Longrightarrow> modifyPrice p ord = (False, ord)"
  by (simp add: modifyPrice_def)

lemma book_gate:
  assumes "map_of (m_orderMap b) i = Some a" "heap b a = Some ord" "terminal ord"
  shows "cancelOrder i b = (False, b)" "modifyOrderPrice i p b = (False, b)"
        "modifyOrderQuantity i q b = (False, b)"
  using assms terminal_not_active[of ord]
  by (simp_all add: cancelOrder_def modifyOrderPrice_def modifyOrderQuantity_def deref_def)

lemma filled_example_eq:
  "filled_example = \<lparr>m_id = 1, m_side = BUY, m_type = LIMIT, m_price = 100,
     m_quantity = 100, m_filledQty = 100, m_status = FILLED\<rparr>"
  by (simp add: filled_example_def fill_def Order_ctor_def getRemainingQty_def Let_def)

text \<open>
  C3, as the code has it.  For an order whose status is FILLED or CANCELLED:
  \<^verbatim>\<open>cancel\<close> changes nothing; \<^verbatim>\<open>fill\<close>, \<^verbatim>\<open>modifyPrice\<close> and
  \<^verbatim>\<open>modifyQuantity\<close> change nothing whenever they return failure; a FILLED order
  with filled = quantity is left as it is by every \<^verbatim>\<open>fill\<close>, and
  \<^verbatim>\<open>modifyPrice\<close> fails on it when its quantity is positive.  These three members
  do not test the status themselves; the test is in the book, whose
  \<^verbatim>\<open>cancelOrder\<close>, \<^verbatim>\<open>modifyOrderPrice\<close> and \<^verbatim>\<open>modifyOrderQuantity\<close>
  return false and leave the book unchanged when the stored order is terminal.
\<close>

theorem terminal_order_operations:
  assumes "terminal ord"
  shows "cancel ord = ord
     \<and> (\<not> fst (fill qty ord) \<longrightarrow> snd (fill qty ord) = ord)
     \<and> (\<not> fst (modifyPrice p ord) \<longrightarrow> snd (modifyPrice p ord) = ord)
     \<and> (\<not> fst (modifyQuantity q ord) \<longrightarrow> snd (modifyQuantity q ord) = ord)
     \<and> (m_status ord = FILLED \<and> m_filledQty ord = m_quantity ord \<longrightarrow> snd (fill qty ord) = ord)
     \<and> (m_status ord = FILLED \<and> m_filledQty ord = m_quantity ord \<and> 0 < m_quantity ord
          \<longrightarrow> modifyPrice p ord = (False, ord))
     \<and> (map_of (m_orderMap b) i = Some a \<and> heap b a = Some ord \<longrightarrow>
          cancelOrder i b = (False, b) \<and> modifyOrderPrice i p b = (False, b)
          \<and> modifyOrderQuantity i q b = (False, b))"
  using assms
  by (simp add: cancel_terminal fill_unchanged_on_failure modifyPrice_unchanged_on_failure
        modifyQuantity_unchanged_on_failure fill_filled_order modifyPrice_filled_order book_gate)

theorem terminal_order_operations_witness:
  "terminal filled_example
   \<and> cancel filled_example = filled_example
   \<and> \<not> fst (fill 1 filled_example) \<and> snd (fill 1 filled_example) = filled_example
   \<and> \<not> fst (modifyPrice 105 filled_example) \<and> snd (modifyPrice 105 filled_example) = filled_example
   \<and> \<not> fst (modifyQuantity 50 filled_example) \<and> snd (modifyQuantity 50 filled_example) = filled_example
   \<and> m_status filled_example = FILLED \<and> m_filledQty filled_example = m_quantity filled_example
   \<and> 0 < m_quantity filled_example
   \<and> map_of (m_orderMap filled_book) 1 = Some 0 \<and> heap filled_book 0 = Some filled_example
   \<and> cancelOrder 1 filled_book = (False, filled_book)
   \<and> modifyOrderPrice 1 105 filled_book = (False, filled_book)
   \<and> modifyOrderQuantity 1 50 filled_book = (False, filled_book)"
proof -
  have t: "terminal filled_example" by (simp add: terminal_def filled_example_eq)
  have f1: "\<not> fst (fill 1 filled_example)"
    by (simp add: filled_example_eq fill_def getRemainingQty_def)
  have f2: "\<not> fst (modifyPrice 105 filled_example)"
    by (simp add: filled_example_eq modifyPrice_def)
  have f3: "\<not> fst (modifyQuantity 50 filled_example)"
    by (simp add: filled_example_eq modifyQuantity_def)
  have f4: "m_status filled_example = FILLED \<and> m_filledQty filled_example = m_quantity filled_example
      \<and> 0 < m_quantity filled_example"
    by (simp add: filled_example_eq)
  have f5: "map_of (m_orderMap filled_book) 1 = Some 0 \<and> heap filled_book 0 = Some filled_example"
    by (simp add: filled_book_def)
  show ?thesis
    using terminal_order_operations[OF t, of 1 105 50 filled_book 1 0] t f1 f2 f3 f4 f5
    by simp
qed

text \<open>
  C3 as stated fails: \<^verbatim>\<open>fill(5)\<close> on a CANCELLED order of quantity 10 succeeds and
  moves it to PARTIAL with 5 filled, and \<^verbatim>\<open>modifyPrice\<close> reprices it.
\<close>

theorem terminal_order_counterexample:
  "m_status cancelled_example = CANCELLED
   \<and> fst (fill 5 cancelled_example)
   \<and> m_filledQty cancelled_example = 0
   \<and> m_filledQty (snd (fill 5 cancelled_example)) = 5
   \<and> m_status (snd (fill 5 cancelled_example)) = PARTIAL
   \<and> fst (modifyPrice 105 cancelled_example)
   \<and> m_price cancelled_example = 100
   \<and> m_price (snd (modifyPrice 105 cancelled_example)) = 105"
  by (simp add: cancelled_example_def Order_ctor_def cancel_def isActive_def fill_def
        getRemainingQty_def modifyPrice_def Let_def)

subsection \<open>The quantity invariant along a sequence of operations\<close>

lemma fill_filled_le:
  assumes "m_filledQty ord \<le> m_quantity ord"
  shows "m_filledQty (snd (fill qty ord)) \<le> m_quantity (snd (fill qty ord))"
proof (cases "qty > getRemainingQty ord")
  case True
  then show ?thesis using assms by (simp add: fill_def)
next
  case False
  then have le: "qty \<le> m_quantity ord - m_filledQty ord" by (simp add: getRemainingQty_def)
  have "unat qty \<le> unat (m_quantity ord) - unat (m_filledQty ord)"
    using le assms by (simp add: word_le_nat_alt unat_sub)
  then have "unat (m_filledQty ord) + unat qty \<le> unat (m_quantity ord)"
    using assms by (simp add: word_le_nat_alt)
  then have "m_filledQty ord + qty \<le> m_quantity ord"
    by (metis le_unat_uoi word_le_nat_alt word_arith_nat_add)
  then show ?thesis using False by (simp add: fill_def Let_def)
qed

lemma apply_op_filled_le:
  "m_filledQty ord \<le> m_quantity ord \<Longrightarrow>
   m_filledQty (apply_op x ord) \<le> m_quantity (apply_op x ord)"
  by (cases x) (auto simp: fill_filled_le cancel_def modifyPrice_def modifyQuantity_def Let_def)

lemma run_ops_filled_le:
  "m_filledQty ord \<le> m_quantity ord \<Longrightarrow>
   m_filledQty (run_ops xs ord) \<le> m_quantity (run_ops xs ord)"
  by (induction xs arbitrary: ord) (simp_all add: apply_op_filled_le)

lemma fill_status_ok: "status_ok ord \<Longrightarrow> status_ok (snd (fill qty ord))"
  by (auto simp: status_ok_def fill_def Let_def word_gt_0 getRemainingQty_def)

lemma cancel_status_ok: "status_ok ord \<Longrightarrow> status_ok (cancel ord)"
  by (auto simp: status_ok_def cancel_def isActive_def)

lemma modifyPrice_status_ok: "status_ok ord \<Longrightarrow> status_ok (snd (modifyPrice p ord))"
  by (auto simp: status_ok_def modifyPrice_def)

lemma modifyQuantity_status_ok:
  "status_ok ord \<Longrightarrow> \<not> (m_status ord = FILLED \<and> m_filledQty ord < q) \<Longrightarrow>
   status_ok (snd (modifyQuantity q ord))"
  by (auto simp: status_ok_def modifyQuantity_def Let_def)

lemma run_ops_status_ok:
  "status_ok ord \<Longrightarrow> gated xs ord \<Longrightarrow> status_ok (run_ops xs ord)"
proof (induction xs arbitrary: ord)
  case Nil
  then show ?case by simp
next
  case (Cons x xs)
  have "status_ok (apply_op x ord)"
    using Cons.prems
    by (cases x)
       (simp_all add: fill_status_ok cancel_status_ok modifyPrice_status_ok modifyQuantity_status_ok)
  then show ?case using Cons by simp
qed

text \<open>
  C4, as the code has it.  After construction and any sequence of \<^verbatim>\<open>fill\<close>,
  \<^verbatim>\<open>cancel\<close>, \<^verbatim>\<open>modifyPrice\<close> and \<^verbatim>\<open>modifyQuantity\<close> calls, filled \<open>\<le>\<close> quantity
  (both unsigned, so 0 \<open>\<le>\<close> filled).  If the order was constructed with a positive quantity
  and no call raised the quantity of an order that was already FILLED, the status is
  FILLED exactly when filled = quantity.
\<close>

theorem order_quantity_invariant:
  "m_filledQty (run_ops xs (Order_ctor i s t p q)) \<le> m_quantity (run_ops xs (Order_ctor i s t p q))
   \<and> (0 < q \<and> gated xs (Order_ctor i s t p q) \<longrightarrow>
        (m_status (run_ops xs (Order_ctor i s t p q)) = FILLED
           \<longleftrightarrow> m_filledQty (run_ops xs (Order_ctor i s t p q))
                 = m_quantity (run_ops xs (Order_ctor i s t p q))))"
proof -
  let ?o = "Order_ctor i s t p q"
  have a: "m_filledQty ?o \<le> m_quantity ?o" by (simp add: Order_ctor_def)
  have b: "0 < q \<Longrightarrow> status_ok ?o" by (auto simp: Order_ctor_def status_ok_def)
  show ?thesis
    using run_ops_filled_le[OF a, of xs] run_ops_status_ok[OF b, of xs]
    by (auto simp: status_ok_def)
qed

theorem order_quantity_invariant_witness:
  "(0::Quantity) < 100
   \<and> gated [OpFill 30, OpFill 70, OpCancel] (Order_ctor 1 BUY LIMIT 100 100)
   \<and> m_status (run_ops [OpFill 30, OpFill 70, OpCancel] (Order_ctor 1 BUY LIMIT 100 100)) = FILLED
   \<and> m_filledQty (run_ops [OpFill 30, OpFill 70, OpCancel] (Order_ctor 1 BUY LIMIT 100 100))
       = m_quantity (run_ops [OpFill 30, OpFill 70, OpCancel] (Order_ctor 1 BUY LIMIT 100 100))
   \<and> m_filledQty (run_ops [OpFill 30, OpFill 70, OpCancel] (Order_ctor 1 BUY LIMIT 100 100)) = 100"
proof -
  have g: "gated [OpFill 30, OpFill 70, OpCancel] (Order_ctor 1 BUY LIMIT 100 100)"
    by (simp add: Order_ctor_def fill_def getRemainingQty_def cancel_def isActive_def Let_def)
  have f: "m_filledQty (run_ops [OpFill 30, OpFill 70, OpCancel] (Order_ctor 1 BUY LIMIT 100 100)) = 100"
    by (simp add: Order_ctor_def fill_def getRemainingQty_def cancel_def isActive_def Let_def)
  have q: "m_quantity (run_ops [OpFill 30, OpFill 70, OpCancel] (Order_ctor 1 BUY LIMIT 100 100)) = 100"
    by (simp add: Order_ctor_def fill_def getRemainingQty_def cancel_def isActive_def Let_def)
  show ?thesis
    using order_quantity_invariant[of "[OpFill 30, OpFill 70, OpCancel]" 1 BUY LIMIT 100 100] g f q
    by simp
qed

text \<open>
  C4 as stated fails in both directions: an order constructed with quantity 0 is NEW
  with filled = quantity, and raising the quantity of a FILLED order leaves it FILLED
  with filled < quantity.
\<close>

theorem order_quantity_invariant_counterexample:
  "m_status zero_example = NEW
   \<and> m_filledQty zero_example = m_quantity zero_example
   \<and> m_status raised_example = FILLED
   \<and> m_filledQty raised_example = 10
   \<and> m_quantity raised_example = 20"
  by (simp add: zero_example_def raised_example_def Order_ctor_def fill_def getRemainingQty_def
        modifyQuantity_def Let_def)


section \<open>Properties of the order queue\<close>

lemma pop_after_shutdown:
  "m_shutdown q \<Longrightarrow>
   pop q = (if m_queue q = [] then Returns (None, q)
            else Returns (Some (hd (m_queue q)), q\<lparr>m_queue := tl (m_queue q)\<rparr>))"
  by (simp add: pop_def)

lemma drain_after_shutdown:
  "m_shutdown q \<Longrightarrow> length (m_queue q) = n \<Longrightarrow> drain n q = (m_queue q, q\<lparr>m_queue := []\<rparr>)"
proof (induction n arbitrary: q)
  case 0
  then show ?case by simp
next
  case (Suc n)
  then obtain x xs where q: "m_queue q = x # xs" by (cases "m_queue q") auto
  let ?q' = "q\<lparr>m_queue := xs\<rparr>"
  have "drain n ?q' = (m_queue ?q', ?q'\<lparr>m_queue := []\<rparr>)"
    using Suc.prems q by (intro Suc.IH) auto
  then show ?case using Suc.prems q by (simp add: pop_after_shutdown)
qed

text \<open>
  C8.  \<^verbatim>\<open>shutdown\<close> twice is \<^verbatim>\<open>shutdown\<close> once, and no member clears the flag.
  On a queue that has been shut down \<^verbatim>\<open>pop\<close> never blocks; \<^verbatim>\<open>pop\<close> and
  \<^verbatim>\<open>popWithTimeout\<close> return none exactly when the queue is empty and otherwise
  return the front item; popping as many times as there are items returns them in
  the order they were queued, and the next \<^verbatim>\<open>pop\<close> returns none.
\<close>

theorem shutdown_idempotent_sticky_fifo:
  "shutdown (shutdown q) = shutdown q
   \<and> isShutdown (shutdown q)
   \<and> isShutdown (push ord (shutdown q))
   \<and> isShutdown (clear_q (shutdown q))
   \<and> isShutdown (snd (tryPop (shutdown q)))
   \<and> isShutdown (snd (popWithTimeout ms (shutdown q)))
   \<and> pop (shutdown q) =
        (if m_queue q = [] then Returns (None, shutdown q)
         else Returns (Some (hd (m_queue q)), shutdown (q\<lparr>m_queue := tl (m_queue q)\<rparr>)))
   \<and> popWithTimeout ms (shutdown q) =
        (if m_queue q = [] then (None, shutdown q)
         else (Some (hd (m_queue q)), shutdown (q\<lparr>m_queue := tl (m_queue q)\<rparr>)))
   \<and> ((\<exists>q'. pop (shutdown q) = Returns (None, q')) \<longleftrightarrow> m_queue q = [])
   \<and> (fst (popWithTimeout ms (shutdown q)) = None \<longleftrightarrow> m_queue q = [])
   \<and> drain (length (m_queue q)) (shutdown q) = (m_queue q, shutdown (q\<lparr>m_queue := []\<rparr>))
   \<and> pop (shutdown (q\<lparr>m_queue := []\<rparr>)) = Returns (None, shutdown (q\<lparr>m_queue := []\<rparr>))"
proof -
  have d: "drain (length (m_queue q)) (shutdown q) = (m_queue q, shutdown (q\<lparr>m_queue := []\<rparr>))"
    using drain_after_shutdown[of "shutdown q" "length (m_queue q)"]
    by (simp add: shutdown_def)
  have p: "pop (shutdown q) =
        (if m_queue q = [] then Returns (None, shutdown q)
         else Returns (Some (hd (m_queue q)), shutdown (q\<lparr>m_queue := tl (m_queue q)\<rparr>)))"
    by (simp add: pop_def shutdown_def)
  have t: "popWithTimeout ms (shutdown q) =
        (if m_queue q = [] then (None, shutdown q)
         else (Some (hd (m_queue q)), shutdown (q\<lparr>m_queue := tl (m_queue q)\<rparr>)))"
    by (simp add: popWithTimeout_def shutdown_def)
  have e: "pop (shutdown (q\<lparr>m_queue := []\<rparr>)) = Returns (None, shutdown (q\<lparr>m_queue := []\<rparr>))"
    by (simp add: pop_def shutdown_def)
  have s: "shutdown (shutdown q) = shutdown q \<and> isShutdown (shutdown q)
     \<and> isShutdown (push ord (shutdown q)) \<and> isShutdown (clear_q (shutdown q))
     \<and> isShutdown (snd (tryPop (shutdown q)))"
    by (simp add: shutdown_def isShutdown_def push_def clear_q_def tryPop_def)
  have s2: "isShutdown (snd (popWithTimeout ms (shutdown q)))"
    unfolding t by (simp add: shutdown_def isShutdown_def)
  have i1: "(\<exists>q'. pop (shutdown q) = Returns (None, q')) \<longleftrightarrow> m_queue q = []"
    unfolding p by auto
  have i2: "fst (popWithTimeout ms (shutdown q)) = None \<longleftrightarrow> m_queue q = []"
    unfolding t by auto
  show ?thesis using d p t e s s2 i1 i2 by blast
qed

theorem shutdown_idempotent_sticky_fifo_witness:
  "shutdown (shutdown queue_example) = shutdown queue_example
   \<and> pop (shutdown queue_example) \<noteq> Blocks
   \<and> fst (popWithTimeout 100 (shutdown queue_example)) = Some (Order_ctor 1 BUY LIMIT 100 10)
   \<and> fst (drain 2 (shutdown queue_example))
       = [Order_ctor 1 BUY LIMIT 100 10, Order_ctor 2 SELL LIMIT 101 5]
   \<and> pop (snd (drain 2 (shutdown queue_example))) = Returns (None, snd (drain 2 (shutdown queue_example)))
   \<and> pop queue_example \<noteq> Blocks \<and> pop OrderQueue_ctor = Blocks"
proof -
  have q: "m_queue queue_example = [Order_ctor 1 BUY LIMIT 100 10, Order_ctor 2 SELL LIMIT 101 5]"
    by (simp add: queue_example_def push_def OrderQueue_ctor_def)
  have l: "length (m_queue queue_example) = 2" by (simp add: q)
  have b: "pop queue_example \<noteq> Blocks \<and> pop OrderQueue_ctor = Blocks"
    by (simp add: pop_def q) (simp add: OrderQueue_ctor_def)
  note t = shutdown_idempotent_sticky_fifo[of queue_example "Order_ctor 3 BUY LIMIT 1 1" 100]
  have d: "drain 2 (shutdown queue_example) = (m_queue queue_example, shutdown (queue_example\<lparr>m_queue := []\<rparr>))"
    using t unfolding l by blast
  have p: "pop (shutdown queue_example) \<noteq> Blocks" using t by (simp add: q)
  have w: "fst (popWithTimeout 100 (shutdown queue_example)) = Some (Order_ctor 1 BUY LIMIT 100 10)"
    using t by (simp add: q)
  have e: "pop (shutdown (queue_example\<lparr>m_queue := []\<rparr>)) = Returns (None, shutdown (queue_example\<lparr>m_queue := []\<rparr>))"
    using t by blast
  have i: "shutdown (shutdown queue_example) = shutdown queue_example" using t by blast
  show ?thesis using b p w i by (simp add: d e q)
qed



section \<open>Facts about the ordered maps\<close>

lemma strict_lin_greater_price: "strict_lin greater_price"
  by (auto simp: strict_lin_def greater_price_def)

lemma strict_lin_less_price: "strict_lin less_price"
  by (auto simp: strict_lin_def less_price_def)

lemma strict_lin_side_lt: "strict_lin (side_lt s)"
  by (simp add: side_lt_def strict_lin_greater_price strict_lin_less_price)

lemma strict_lin_irrefl: "strict_lin lt \<Longrightarrow> \<not> lt x x"
  by (simp add: strict_lin_def)

lemma strict_lin_trans: "strict_lin lt \<Longrightarrow> lt x y \<Longrightarrow> lt y z \<Longrightarrow> lt x z"
  unfolding strict_lin_def by blast

lemma strict_lin_total: "strict_lin lt \<Longrightarrow> \<not> lt x y \<Longrightarrow> \<not> lt y x \<Longrightarrow> x = y"
  unfolding strict_lin_def by blast

lemma strict_lin_asym: "strict_lin lt \<Longrightarrow> lt x y \<Longrightarrow> \<not> lt y x"
  unfolding strict_lin_def by blast

lemma sorted_keys_distinct:
  "strict_lin lt \<Longrightarrow> sorted_wrt lt (map fst m) \<Longrightarrow> distinct (map fst m)"
  by (induction m) (auto simp: strict_lin_def)

lemma set_map_put:
  "strict_lin lt \<Longrightarrow> sorted_wrt lt (map fst m) \<Longrightarrow>
   set (map_put lt k v m) = insert (k, v) {e \<in> set m. fst e \<noteq> k}"
proof (induction m)
  case Nil
  then show ?case by simp
next
  case (Cons e m)
  obtain k' v' where e: "e = (k', v')" by (cases e)
  have hd_lt: "\<forall>x \<in> set m. lt k' (fst x)" using Cons.prems(2) e by auto
  show ?case
  proof (cases "lt k k'")
    case True
    then have "k \<noteq> k'" using Cons.prems(1) strict_lin_irrefl by metis
    moreover have "\<forall>x \<in> set m. fst x \<noteq> k"
      using hd_lt True Cons.prems(1) by (metis strict_lin_irrefl strict_lin_trans)
    ultimately show ?thesis using True e by auto
  next
    case False
    show ?thesis
    proof (cases "lt k' k")
      case True
      then have "k \<noteq> k'" using Cons.prems(1) strict_lin_irrefl by metis
      then show ?thesis using True False e Cons by auto
    next
      case F2: False
      then have eq: "k = k'" using False Cons.prems(1) strict_lin_total by metis
      have "\<forall>x \<in> set m. fst x \<noteq> k"
        using hd_lt eq Cons.prems(1) by (metis strict_lin_irrefl)
      then show ?thesis using False F2 e eq by auto
    qed
  qed
qed

lemma keys_map_put:
  "strict_lin lt \<Longrightarrow> sorted_wrt lt (map fst m) \<Longrightarrow>
   fst ` set (map_put lt k v m) = insert k (fst ` set m)"
  by (auto simp: set_map_put image_iff)

lemma sorted_map_put:
  "strict_lin lt \<Longrightarrow> sorted_wrt lt (map fst m) \<Longrightarrow> sorted_wrt lt (map fst (map_put lt k v m))"
proof (induction m)
  case Nil
  then show ?case by simp
next
  case (Cons e m)
  obtain k' v' where e: "e = (k', v')" by (cases e)
  have hd_lt: "\<forall>x \<in> set m. lt k' (fst x)" using Cons.prems(2) e by auto
  have sm: "sorted_wrt lt (map fst m)" using Cons.prems(2) by simp
  show ?case
  proof (cases "lt k k'")
    case True
    have "\<forall>x \<in> set m. lt k (fst x)"
      using hd_lt True Cons.prems(1) by (metis strict_lin_trans)
    then show ?thesis using True e Cons.prems(2) by auto
  next
    case False
    show ?thesis
    proof (cases "lt k' k")
      case True
      have "\<forall>x \<in> set (map_put lt k v m). lt k' (fst x)"
        using hd_lt True by (auto simp: set_map_put[OF Cons.prems(1) sm])
      then show ?thesis using True False e Cons.IH[OF Cons.prems(1) sm] by auto
    next
      case F2: False
      then have eq: "k = k'" using False Cons.prems(1) strict_lin_total by metis
      then show ?thesis using False F2 e Cons.prems(2) by auto
    qed
  qed
qed

lemma map_of_map_put:
  assumes "strict_lin lt" "sorted_wrt lt (map fst m)"
  shows "map_of (map_put lt k v m) = (map_of m)(k \<mapsto> v)"
proof (rule ext)
  fix k'
  have d: "distinct (map fst (map_put lt k v m))"
    using sorted_keys_distinct[OF assms(1) sorted_map_put[OF assms]] .
  have d0: "distinct (map fst m)" using sorted_keys_distinct[OF assms] .
  show "map_of (map_put lt k v m) k' = ((map_of m)(k \<mapsto> v)) k'"
  proof (cases "((map_of m)(k \<mapsto> v)) k'")
    case None
    then have "k' \<noteq> k" "k' \<notin> fst ` set m" by (auto simp: map_of_eq_None_iff split: if_splits)
    then have "k' \<notin> fst ` set (map_put lt k v m)" by (simp add: keys_map_put[OF assms])
    then show ?thesis using None by (simp add: map_of_eq_None_iff)
  next
    case (Some x)
    then have "(k', x) \<in> set (map_put lt k v m)"
      using d0 by (auto simp: set_map_put[OF assms] split: if_splits dest: map_of_SomeD)
    then show ?thesis using Some d by simp
  qed
qed

lemma sorted_delete:
  "sorted_wrt lt (map fst m) \<Longrightarrow> sorted_wrt lt (map fst (AList.delete k m))"
  by (induction m) (auto simp: AList.delete_eq)

lemma delete_map_put_fresh:
  "strict_lin lt \<Longrightarrow> sorted_wrt lt (map fst m) \<Longrightarrow> map_of m k = None \<Longrightarrow>
   AList.delete k (map_put lt k v m) = m"
proof (induction m)
  case Nil
  then show ?case by (simp add: AList.delete_eq)
next
  case (Cons e m)
  obtain k' v' where e: "e = (k', v')" by (cases e)
  have ne: "k' \<noteq> k" using Cons.prems(3) e by (auto split: if_splits)
  have nm: "map_of m k = None" using Cons.prems(3) e ne by simp
  have sm: "sorted_wrt lt (map fst m)" using Cons.prems(2) by simp
  have idm: "AList.delete k m = m"
    using nm by (simp add: AList.delete_id map_of_eq_None_iff)
  show ?case
  proof (cases "lt k k'")
    case True
    then show ?thesis using e ne idm by (simp add: AList.delete_eq)
  next
    case False
    then have "lt k' k" using ne Cons.prems(1) strict_lin_total by metis
    then show ?thesis using False e ne Cons.IH[OF Cons.prems(1) sm nm] by (simp add: AList.delete_eq)
  qed
qed

lemma map_put_same:
  "strict_lin lt \<Longrightarrow> sorted_wrt lt (map fst m) \<Longrightarrow> map_of m k = Some v \<Longrightarrow>
   map_put lt k v m = m"
proof (induction m)
  case Nil
  then show ?case by simp
next
  case (Cons e m)
  obtain k' v' where e: "e = (k', v')" by (cases e)
  have hd_lt: "\<forall>x \<in> set m. lt k' (fst x)" using Cons.prems(2) e by auto
  have sm: "sorted_wrt lt (map fst m)" using Cons.prems(2) by simp
  show ?case
  proof (cases "k = k'")
    case True
    then show ?thesis using e Cons.prems strict_lin_irrefl[OF Cons.prems(1)] by auto
  next
    case False
    then have mk: "map_of m k = Some v" using Cons.prems(3) e by simp
    then have "(k, v) \<in> set m" by (rule map_of_SomeD)
    then have "lt k' k" using hd_lt by auto
    then have "\<not> lt k k'" using Cons.prems(1) strict_lin_asym by metis
    then show ?thesis using \<open>lt k' k\<close> e Cons.IH[OF Cons.prems(1) sm mk] by simp
  qed
qed

lemma map_put_twice:
  "strict_lin lt \<Longrightarrow> sorted_wrt lt (map fst m) \<Longrightarrow>
   map_put lt k v (map_put lt k v' m) = map_put lt k v m"
proof (induction m)
  case Nil
  then show ?case using strict_lin_irrefl by fastforce
next
  case (Cons e m)
  obtain k' v'' where e: "e = (k', v'')" by (cases e)
  have sm: "sorted_wrt lt (map fst m)" using Cons.prems(2) by simp
  have ir: "\<not> lt k k" using Cons.prems(1) strict_lin_irrefl by metis
  show ?case
  proof (cases "lt k k'")
    case True
    then show ?thesis using e ir by simp
  next
    case False
    show ?thesis
    proof (cases "lt k' k")
      case True
      then show ?thesis using False e Cons.IH[OF Cons.prems(1) sm] by simp
    next
      case F2: False
      then show ?thesis using False e ir by simp
    qed
  qed
qed

lemma length_map_put_existing:
  "strict_lin lt \<Longrightarrow> sorted_wrt lt (map fst m) \<Longrightarrow> map_of m k = Some v' \<Longrightarrow>
   length (map_put lt k v m) = length m"
proof (induction m)
  case Nil
  then show ?case by simp
next
  case (Cons e m)
  obtain k' v'' where e: "e = (k', v'')" by (cases e)
  have hd_lt: "\<forall>x \<in> set m. lt k' (fst x)" using Cons.prems(2) e by auto
  have sm: "sorted_wrt lt (map fst m)" using Cons.prems(2) by simp
  show ?case
  proof (cases "k = k'")
    case True
    then show ?thesis using e strict_lin_irrefl[OF Cons.prems(1)] by auto
  next
    case False
    then have mk: "map_of m k = Some v'" using Cons.prems(3) e by simp
    then have "(k, v') \<in> set m" by (rule map_of_SomeD)
    then have "lt k' k" using hd_lt by auto
    then have "\<not> lt k k'" using Cons.prems(1) strict_lin_asym by metis
    then show ?thesis using \<open>lt k' k\<close> e Cons.IH[OF Cons.prems(1) sm mk] by simp
  qed
qed


section \<open>The book operations, side by side\<close>

lemma side_levels_set_side_levels [simp]:
  "side_levels s' (set_side_levels s m b) = (if s' = s then m else side_levels s' b)"
  by (cases s; cases s') (simp_all add: side_levels_def set_side_levels_def)

lemma set_side_levels_frame [simp]:
  "heap (set_side_levels s m b) = heap b"
  "m_orderMap (set_side_levels s m b) = m_orderMap b"
  "brk (set_side_levels s m b) = brk b"
  by (simp_all add: set_side_levels_def)

lemma side_levels_frame [simp]:
  "side_levels s (b\<lparr>heap := h\<rparr>) = side_levels s b"
  "side_levels s (b\<lparr>m_orderMap := om\<rparr>) = side_levels s b"
  "side_levels s (b\<lparr>brk := n\<rparr>) = side_levels s b"
  by (simp_all add: side_levels_def)

lemma set_side_levels_same: "set_side_levels s (side_levels s b) b = b"
  by (cases s) (simp_all add: set_side_levels_def side_levels_def)

lemma addToBook_side:
  "addToBook a b =
     (let s = m_side (deref (heap b) a); p = m_price (deref (heap b) a);
          level = (case map_of (side_levels s b) p of
                     None \<Rightarrow> \<lparr>price = p, totalQuantity = 0, orders = []\<rparr>
                   | Some l \<Rightarrow> l)
      in set_side_levels s
           (map_put (side_lt s) p (PriceLevel_addOrder (heap b) a level) (side_levels s b)) b)"
  by (cases "m_side (deref (heap b) a)")
     (simp_all add: addToBook_def Let_def side_levels_def set_side_levels_def side_lt_def)

lemma removeFromBook_side:
  "removeFromBook a b =
     (let s = m_side (deref (heap b) a); p = m_price (deref (heap b) a)
      in case map_of (side_levels s b) p of
           None \<Rightarrow> b
         | Some l \<Rightarrow>
             (let level = PriceLevel_removeOrder (heap b) a l
              in if orders level = [] then set_side_levels s (AList.delete p (side_levels s b)) b
                 else set_side_levels s (map_put (side_lt s) p level (side_levels s b)) b))"
  by (cases "m_side (deref (heap b) a)")
     (simp_all add: removeFromBook_def Let_def side_levels_def set_side_levels_def side_lt_def
        isEmpty_def split: option.splits)

lemma fillQuantityAtPrice_side:
  "fillQuantityAtPrice s p quantity b =
     (case map_of (side_levels s b) p of
        None \<Rightarrow> (0, b)
      | Some l \<Rightarrow>
          (case fillLoop quantity (heap b) (m_orderMap b) l 0 of
             (h, om, level, filled) \<Rightarrow>
               if totalQuantity level = 0 \<or> orders level = []
               then (filled, set_side_levels s (AList.delete p (side_levels s b))
                               (b\<lparr>heap := h, m_orderMap := om\<rparr>))
               else (filled, set_side_levels s (map_put (side_lt s) p level (side_levels s b))
                               (b\<lparr>heap := h, m_orderMap := om\<rparr>))))"
  by (cases s)
     (simp_all add: fillQuantityAtPrice_def side_levels_def set_side_levels_def side_lt_def
        split: option.splits prod.splits)

lemma modifyOrderQuantity_side:
  "modifyOrderQuantity orderId newQuantity b =
     (case map_of (m_orderMap b) orderId of
        None \<Rightarrow> (False, b)
      | Some a \<Rightarrow>
          if \<not> isActive (deref (heap b) a) then (False, b)
          else
            let oldRemaining = getRemainingQty (deref (heap b) a);
                r = modifyQuantity newQuantity (deref (heap b) a)
            in if \<not> fst r then (False, b)
               else
                 let b1 = b\<lparr>heap := (heap b)(a \<mapsto> snd r)\<rparr>;
                     diff = getRemainingQty (snd r) - oldRemaining;
                     p = m_price (snd r); s = m_side (snd r)
                 in (case map_of (side_levels s b1) p of
                       None \<Rightarrow> (True, b1)
                     | Some l \<Rightarrow>
                         (True, set_side_levels s
                                  (map_put (side_lt s) p (l\<lparr>totalQuantity := totalQuantity l + diff\<rparr>)
                                     (side_levels s b1)) b1)))"
  by (cases "m_side (snd (modifyQuantity newQuantity (deref (heap b) (the (map_of (m_orderMap b) orderId)))))")
     (auto simp: modifyOrderQuantity_def Let_def side_levels_def set_side_levels_def side_lt_def
        split: option.splits)

lemma book_inv_sides:
  "book_inv b \<longleftrightarrow>
     index_inv (heap b) (m_orderMap b) (brk b) \<and>
     (\<forall>s. side_inv (heap b) (m_orderMap b) s (side_levels s b))"
proof -
  have "(\<forall>s. side_inv (heap b) (m_orderMap b) s (side_levels s b)) \<longleftrightarrow>
        side_inv (heap b) (m_orderMap b) BUY (m_bids b) \<and> side_inv (heap b) (m_orderMap b) SELL (m_asks b)"
    by (metis (full_types) Side.exhaust Side.distinct(1) side_levels_def)
  then show ?thesis by (simp add: book_inv_def)
qed

section \<open>The invariant is kept\<close>

lemma level_ok_frame:
  assumes "level_ok h om s e"
    and "\<forall>a \<in> set (orders (snd e)). h' a = h a"
    and "snd ` set om \<subseteq> snd ` set om'"
  shows "level_ok h' om' s e"
proof -
  have d: "\<forall>a \<in> set (orders (snd e)). deref h' a = deref h a"
    using assms(2) by (simp add: deref_def)
  then have m: "map (\<lambda>a. getRemainingQty (deref h' a)) (orders (snd e))
           = map (\<lambda>a. getRemainingQty (deref h a)) (orders (snd e))"
    by (intro map_cong) auto
  show ?thesis using assms(1,3) d unfolding level_ok_def m by auto
qed

lemma side_inv_frame:
  assumes "side_inv h om s m"
    and "\<forall>e \<in> set m. \<forall>a \<in> set (orders (snd e)). h' a = h a"
    and "snd ` set om \<subseteq> snd ` set om'"
  shows "side_inv h' om' s m"
  using assms unfolding side_inv_def by (auto intro: level_ok_frame)

lemma side_inv_lookup:
  "side_inv h om s m \<Longrightarrow> map_of m p = Some l \<Longrightarrow> level_ok h om s (p, l)"
  unfolding side_inv_def by (auto dest: map_of_SomeD)

lemma side_inv_sorted: "side_inv h om s m \<Longrightarrow> sorted_wrt (side_lt s) (map fst m)"
  by (simp add: side_inv_def)

lemma side_inv_mem_lookup:
  "side_inv h om s m \<Longrightarrow> e \<in> set m \<Longrightarrow> map_of m (fst e) = Some (snd e)"
  using sorted_keys_distinct[OF strict_lin_side_lt, of s m]
  by (simp add: side_inv_def)

lemma side_inv_map_put:
  assumes "side_inv h om s m" "level_ok h om s (p, l)"
  shows "side_inv h om s (map_put (side_lt s) p l m)"
  using assms sorted_map_put[OF strict_lin_side_lt, of s m p l]
  by (auto simp: side_inv_def set_map_put[OF strict_lin_side_lt])

lemma side_inv_delete:
  assumes "side_inv h om s m"
  shows "side_inv h om s (AList.delete p m)"
  using assms sorted_delete[of "side_lt s" m p]
  by (auto simp: side_inv_def AList.delete_eq)

lemma book_inv_side: "book_inv b \<Longrightarrow> side_inv (heap b) (m_orderMap b) s (side_levels s b)"
  by (simp add: book_inv_sides)

lemma book_inv_index: "book_inv b \<Longrightarrow> index_inv (heap b) (m_orderMap b) (brk b)"
  by (simp add: book_inv_sides)

text \<open>An order is listed only in the level of its own side and price.\<close>

lemma listed_side_price:
  assumes "book_inv b" "e \<in> set (side_levels s b)" "a \<in> set (orders (snd e))"
  shows "s = m_side (deref (heap b) a)" "fst e = m_price (deref (heap b) a)"
  using book_inv_side[OF assms(1), of s] assms(2,3)
  by (auto simp: side_inv_def level_ok_def)

lemma listed_lookup:
  assumes "book_inv b" "e \<in> set (side_levels s b)" "a \<in> set (orders (snd e))"
  shows "map_of (side_levels (m_side (deref (heap b) a)) b) (m_price (deref (heap b) a)) = Some (snd e)"
  using side_inv_mem_lookup[OF book_inv_side[OF assms(1)] assms(2)] listed_side_price[OF assms]
  by simp

lemma levels_of_sides:
  "levels_of a b =
     map (\<lambda>e. (BUY, fst e)) (filter (\<lambda>e. a \<in> set (orders (snd e))) (side_levels BUY b)) @
     map (\<lambda>e. (SELL, fst e)) (filter (\<lambda>e. a \<in> set (orders (snd e))) (side_levels SELL b))"
  by (simp add: levels_of_def side_levels_def)

lemma levels_of_empty_iff:
  "levels_of a b = [] \<longleftrightarrow> (\<forall>s. \<forall>e \<in> set (side_levels s b). a \<notin> set (orders (snd e)))"
proof -
  have "(\<forall>s. \<forall>e \<in> set (side_levels s b). a \<notin> set (orders (snd e))) \<longleftrightarrow>
        (\<forall>e \<in> set (side_levels BUY b). a \<notin> set (orders (snd e))) \<and>
        (\<forall>e \<in> set (side_levels SELL b). a \<notin> set (orders (snd e)))"
    by (metis (full_types) Side.exhaust)
  then show ?thesis by (auto simp: levels_of_sides filter_empty_conv)
qed

lemma filter_map_put_single:
  "P (k, v) \<Longrightarrow> \<forall>e \<in> set m. \<not> P e \<Longrightarrow> filter P (map_put lt k v m) = [(k, v)]"
  by (induction m) auto

lemma filter_map_put_none:
  "\<not> P (k, v) \<Longrightarrow> \<forall>e \<in> set m. fst e \<noteq> k \<longrightarrow> \<not> P e \<Longrightarrow> strict_lin lt \<Longrightarrow>
   sorted_wrt lt (map fst m) \<Longrightarrow> filter P (map_put lt k v m) = []"
  by (auto simp: filter_empty_conv set_map_put)

subsection \<open>\<^verbatim>\<open>removeFromBook\<close>\<close>

lemma book_inv_set_side:
  "book_inv b \<Longrightarrow> side_inv (heap b) (m_orderMap b) s m \<Longrightarrow> book_inv (set_side_levels s m b)"
  by (simp add: book_inv_sides)

lemma level_ok_removeOrder:
  assumes "level_ok h om s (p, l)" "a \<in> set (orders l)" "remove1 a (orders l) \<noteq> []"
  shows "level_ok h om s (p, PriceLevel_removeOrder h a l)"
proof -
  let ?f = "\<lambda>a. getRemainingQty (deref h a)"
  have "sum_list (map ?f (orders l)) = ?f a + sum_list (map ?f (remove1 a (orders l)))"
    using assms(2) by (rule sum_list_map_remove1)
  then have "sum_list (map ?f (remove1 a (orders l))) = sum_list (map ?f (orders l)) - ?f a"
    by simp
  then show ?thesis
    using assms unfolding level_ok_def PriceLevel_removeOrder_def
    by (auto dest: notin_set_remove1)
qed

lemma removeFromBook_frame [simp]:
  "heap (removeFromBook a b) = heap b"
  "m_orderMap (removeFromBook a b) = m_orderMap b"
  "brk (removeFromBook a b) = brk b"
  by (simp_all add: removeFromBook_side Let_def split: option.splits)

lemma removeFromBook_other_side:
  "s \<noteq> m_side (deref (heap b) a) \<Longrightarrow> side_levels s (removeFromBook a b) = side_levels s b"
  by (simp add: removeFromBook_side Let_def split: option.splits)

lemma removeFromBook_levels:
  assumes "book_inv b"
  shows "side_levels (m_side (deref (heap b) a)) (removeFromBook a b) =
     (case map_of (side_levels (m_side (deref (heap b) a)) b) (m_price (deref (heap b) a)) of
        None \<Rightarrow> side_levels (m_side (deref (heap b) a)) b
      | Some l \<Rightarrow>
          if a \<in> set (orders l) then
            (if remove1 a (orders l) = []
             then AList.delete (m_price (deref (heap b) a)) (side_levels (m_side (deref (heap b) a)) b)
             else map_put (side_lt (m_side (deref (heap b) a))) (m_price (deref (heap b) a))
                    (l\<lparr>totalQuantity := totalQuantity l - getRemainingQty (deref (heap b) a),
                       orders := remove1 a (orders l)\<rparr>)
                    (side_levels (m_side (deref (heap b) a)) b))
          else side_levels (m_side (deref (heap b) a)) b)"
proof -
  let ?s = "m_side (deref (heap b) a)" and ?p = "m_price (deref (heap b) a)"
  let ?m = "side_levels ?s b"
  have si: "side_inv (heap b) (m_orderMap b) ?s ?m" using assms by (rule book_inv_side)
  show ?thesis
  proof (cases "map_of ?m ?p")
    case None
    then show ?thesis by (simp add: removeFromBook_side)
  next
    case (Some l)
    have ok: "level_ok (heap b) (m_orderMap b) ?s (?p, l)" using si Some by (rule side_inv_lookup)
    show ?thesis
    proof (cases "a \<in> set (orders l)")
      case True
      then show ?thesis using Some
        by (simp add: removeFromBook_side Let_def PriceLevel_removeOrder_def)
    next
      case False
      have ne: "orders l \<noteq> []" using ok by (simp add: level_ok_def)
      have "map_put (side_lt ?s) ?p l ?m = ?m"
        using strict_lin_side_lt side_inv_sorted[OF si] Some by (rule map_put_same)
      then show ?thesis using Some False ne
        by (simp add: removeFromBook_side Let_def PriceLevel_removeOrder_def)
    qed
  qed
qed

lemma removeFromBook_inv:
  assumes "book_inv b"
  shows "book_inv (removeFromBook a b)"
proof -
  let ?s = "m_side (deref (heap b) a)" and ?p = "m_price (deref (heap b) a)"
  let ?m = "side_levels ?s b"
  have si: "side_inv (heap b) (m_orderMap b) ?s ?m" using assms by (rule book_inv_side)
  show ?thesis
  proof (cases "map_of ?m ?p")
    case None
    then show ?thesis using assms by (simp add: removeFromBook_side)
  next
    case (Some l)
    have ok: "level_ok (heap b) (m_orderMap b) ?s (?p, l)" using si Some by (rule side_inv_lookup)
    let ?l' = "PriceLevel_removeOrder (heap b) a l"
    show ?thesis
    proof (cases "orders ?l' = []")
      case True
      then show ?thesis using Some assms side_inv_delete[OF si]
        by (simp add: removeFromBook_side Let_def book_inv_set_side)
    next
      case False
      have "level_ok (heap b) (m_orderMap b) ?s (?p, ?l')"
      proof (cases "a \<in> set (orders l)")
        case True
        then have "remove1 a (orders l) \<noteq> []" using False by (simp add: PriceLevel_removeOrder_def)
        with ok True show ?thesis by (rule level_ok_removeOrder)
      next
        case F: False
        then show ?thesis using ok by (simp add: PriceLevel_removeOrder_def)
      qed
      then have "side_inv (heap b) (m_orderMap b) ?s (map_put (side_lt ?s) ?p ?l' ?m)"
        using si by (intro side_inv_map_put)
      then show ?thesis using Some False assms
        by (simp add: removeFromBook_side Let_def book_inv_set_side)
    qed
  qed
qed

lemma removeFromBook_unlisted:
  assumes "book_inv b"
  shows "levels_of a (removeFromBook a b) = []"
proof -
  let ?b' = "removeFromBook a b"
  let ?s = "m_side (deref (heap b) a)" and ?p = "m_price (deref (heap b) a)"
  let ?m = "side_levels ?s b"
  have inv': "book_inv ?b'" using assms by (rule removeFromBook_inv)
  have si: "side_inv (heap b) (m_orderMap b) ?s ?m" using assms by (rule book_inv_side)
  have sl: "strict_lin (side_lt ?s)" by (rule strict_lin_side_lt)
  have so: "sorted_wrt (side_lt ?s) (map fst ?m)" using si by (rule side_inv_sorted)
  {
    fix s e
    assume e: "e \<in> set (side_levels s ?b')" and a: "a \<in> set (orders (snd e))"
    have lk: "map_of (side_levels ?s ?b') ?p = Some (snd e)"
      using listed_lookup[OF inv' e a] by simp
    have False
    proof (cases "map_of ?m ?p")
      case None
      then show ?thesis using lk by (simp add: removeFromBook_levels[OF assms])
    next
      case (Some l)
      have ok: "level_ok (heap b) (m_orderMap b) ?s (?p, l)" using si Some by (rule side_inv_lookup)
      show ?thesis
      proof (cases "a \<in> set (orders l)")
        case True
        have d: "distinct (orders l)" using ok by (simp add: level_ok_def)
        show ?thesis
        proof (cases "remove1 a (orders l) = []")
          case T: True
          then show ?thesis using lk Some True
            by (simp add: removeFromBook_levels[OF assms] delete_conv')
        next
          case False
          then have "snd e = l\<lparr>totalQuantity := totalQuantity l - getRemainingQty (deref (heap b) a),
                       orders := remove1 a (orders l)\<rparr>"
            using lk Some True by (simp add: removeFromBook_levels[OF assms] map_of_map_put[OF sl so])
          then show ?thesis using a d by simp
        qed
      next
        case False
        then show ?thesis using lk Some a by (simp add: removeFromBook_levels[OF assms])
      qed
    qed
  }
  then show ?thesis unfolding levels_of_empty_iff by blast
qed

subsection \<open>\<^verbatim>\<open>addToBook\<close>\<close>

lemma addToBook_frame [simp]:
  "heap (addToBook a b) = heap b"
  "m_orderMap (addToBook a b) = m_orderMap b"
  "brk (addToBook a b) = brk b"
  by (simp_all add: addToBook_side Let_def)

lemma addToBook_other_side:
  "s \<noteq> m_side (deref (heap b) a) \<Longrightarrow> side_levels s (addToBook a b) = side_levels s b"
  by (simp add: addToBook_side Let_def)

lemma addToBook_levels:
  "side_levels (m_side (deref (heap b) a)) (addToBook a b) =
     map_put (side_lt (m_side (deref (heap b) a))) (m_price (deref (heap b) a))
       (PriceLevel_addOrder (heap b) a
          (case map_of (side_levels (m_side (deref (heap b) a)) b) (m_price (deref (heap b) a)) of
             None \<Rightarrow> \<lparr>price = m_price (deref (heap b) a), totalQuantity = 0, orders = []\<rparr>
           | Some l \<Rightarrow> l))
       (side_levels (m_side (deref (heap b) a)) b)"
  by (simp add: addToBook_side Let_def)

lemma level_ok_addOrder_new:
  assumes "a \<in> snd ` set om" "m_side (deref h a) = s" "m_price (deref h a) = p"
  shows "level_ok h om s (p, PriceLevel_addOrder h a \<lparr>price = p, totalQuantity = 0, orders = []\<rparr>)"
  using assms by (simp add: level_ok_def PriceLevel_addOrder_def)

lemma level_ok_addOrder:
  assumes "level_ok h om s (p, l)" "a \<notin> set (orders l)"
    and "a \<in> snd ` set om" "m_side (deref h a) = s" "m_price (deref h a) = p"
  shows "level_ok h om s (p, PriceLevel_addOrder h a l)"
  using assms by (auto simp: level_ok_def PriceLevel_addOrder_def)

lemma addToBook_inv:
  assumes "book_inv b" "a \<in> snd ` set (m_orderMap b)" "levels_of a b = []"
  shows "book_inv (addToBook a b)"
proof -
  let ?s = "m_side (deref (heap b) a)" and ?p = "m_price (deref (heap b) a)"
  let ?m = "side_levels ?s b"
  let ?l0 = "case map_of ?m ?p of
               None \<Rightarrow> \<lparr>price = ?p, totalQuantity = 0, orders = []\<rparr> | Some l \<Rightarrow> l"
  have si: "side_inv (heap b) (m_orderMap b) ?s ?m" using assms(1) by (rule book_inv_side)
  have "level_ok (heap b) (m_orderMap b) ?s (?p, PriceLevel_addOrder (heap b) a ?l0)"
  proof (cases "map_of ?m ?p")
    case None
    then show ?thesis using assms(2) by (simp add: level_ok_addOrder_new)
  next
    case (Some l)
    have ok: "level_ok (heap b) (m_orderMap b) ?s (?p, l)" using si Some by (rule side_inv_lookup)
    have "(?p, l) \<in> set ?m" using Some by (rule map_of_SomeD)
    then have "a \<notin> set (orders l)" using assms(3) unfolding levels_of_empty_iff by fastforce
    then show ?thesis using Some ok assms(2) by (simp add: level_ok_addOrder)
  qed
  then have "side_inv (heap b) (m_orderMap b) ?s
               (map_put (side_lt ?s) ?p (PriceLevel_addOrder (heap b) a ?l0) ?m)"
    using si by (intro side_inv_map_put)
  then show ?thesis using assms(1) by (simp add: addToBook_side Let_def book_inv_set_side)
qed

lemma addToBook_listed:
  assumes "levels_of a b = []"
  shows "levels_of a (addToBook a b) = [(m_side (deref (heap b) a), m_price (deref (heap b) a))]"
proof -
  let ?s = "m_side (deref (heap b) a)" and ?p = "m_price (deref (heap b) a)"
  let ?P = "\<lambda>e. a \<in> set (orders (snd e))"
  let ?l0 = "case map_of (side_levels ?s b) ?p of
               None \<Rightarrow> \<lparr>price = ?p, totalQuantity = 0, orders = []\<rparr> | Some l \<Rightarrow> l"
  have no: "\<And>s. \<forall>e \<in> set (side_levels s b). \<not> ?P e"
    using assms unfolding levels_of_empty_iff by blast
  have same: "filter ?P (side_levels ?s (addToBook a b))
                = [(?p, PriceLevel_addOrder (heap b) a ?l0)]"
    unfolding addToBook_levels
    by (rule filter_map_put_single) (simp add: PriceLevel_addOrder_def, rule no)
  have other: "\<And>s. s \<noteq> ?s \<Longrightarrow> filter ?P (side_levels s (addToBook a b)) = []"
    using no by (simp add: addToBook_other_side filter_empty_conv)
  show ?thesis
  proof (cases ?s)
    case BUY
    then have "filter ?P (side_levels SELL (addToBook a b)) = []" using other[of SELL] by simp
    moreover have "filter ?P (side_levels BUY (addToBook a b))
                = [(?p, PriceLevel_addOrder (heap b) a ?l0)]" using same BUY by simp
    ultimately show ?thesis using BUY by (simp add: levels_of_sides)
  next
    case SELL
    then have "filter ?P (side_levels BUY (addToBook a b)) = []" using other[of BUY] by simp
    moreover have "filter ?P (side_levels SELL (addToBook a b))
                = [(?p, PriceLevel_addOrder (heap b) a ?l0)]" using same SELL by simp
    ultimately show ?thesis using SELL by (simp add: levels_of_sides)
  qed
qed

lemma levels_of_heap [simp]: "levels_of a (b\<lparr>heap := h\<rparr>) = levels_of a b"
  by (simp add: levels_of_def)

lemma heap_update_unlisted_inv:
  assumes "book_inv b" "levels_of a b = []"
    and "\<forall>e \<in> set (m_orderMap b). snd e = a \<longrightarrow> m_id ord = fst e"
  shows "book_inv (b\<lparr>heap := (heap b)(a \<mapsto> ord)\<rparr>)"
proof -
  have ix0: "index_inv (heap b) (m_orderMap b) (brk b)" using assms(1) by (rule book_inv_index)
  have ix: "index_inv ((heap b)(a \<mapsto> ord)) (m_orderMap b) (brk b)"
    unfolding index_inv_def
  proof (intro conjI ballI)
    show "distinct (map fst (m_orderMap b))" "distinct (map snd (m_orderMap b))"
      using ix0 by (simp_all add: index_inv_def)
    fix e assume e: "e \<in> set (m_orderMap b)"
    then show "snd e < brk b" using ix0 by (simp add: index_inv_def)
    have "case heap b (snd e) of None \<Rightarrow> False | Some x \<Rightarrow> m_id x = fst e"
      using ix0 e by (simp add: index_inv_def)
    then show "case ((heap b)(a \<mapsto> ord)) (snd e) of None \<Rightarrow> False | Some x \<Rightarrow> m_id x = fst e"
      using assms(3) e by (cases "snd e = a") simp_all
  qed
  have "\<And>s. side_inv ((heap b)(a \<mapsto> ord)) (m_orderMap b) s (side_levels s b)"
  proof -
    fix s
    have "\<forall>e \<in> set (side_levels s b). \<forall>x \<in> set (orders (snd e)). ((heap b)(a \<mapsto> ord)) x = heap b x"
      using assms(2) unfolding levels_of_empty_iff by auto
    then show "side_inv ((heap b)(a \<mapsto> ord)) (m_orderMap b) s (side_levels s b)"
      by (rule side_inv_frame[OF book_inv_side[OF assms(1), of s] _ subset_refl])
  qed
  then show ?thesis using ix by (simp add: book_inv_sides)
qed

lemma index_lookup:
  assumes "book_inv b" "map_of (m_orderMap b) i = Some a"
  shows "a \<in> snd ` set (m_orderMap b)" "\<exists>ord. heap b a = Some ord \<and> m_id ord = i"
        "\<forall>e \<in> set (m_orderMap b). snd e = a \<longrightarrow> fst e = i" "a < brk b"
proof -
  have ix: "index_inv (heap b) (m_orderMap b) (brk b)" using assms(1) by (rule book_inv_index)
  have mem: "(i, a) \<in> set (m_orderMap b)" using assms(2) by (rule map_of_SomeD)
  then show "a \<in> snd ` set (m_orderMap b)" by force
  have c: "snd (i, a) < brk b \<and> (case heap b (snd (i, a)) of None \<Rightarrow> False | Some x \<Rightarrow> m_id x = fst (i, a))"
    using ix mem unfolding index_inv_def by blast
  show "\<exists>ord. heap b a = Some ord \<and> m_id ord = i"
    using c by (cases "heap b a") simp_all
  show "a < brk b" using c by simp
  have d: "distinct (map snd (m_orderMap b))" using ix by (simp add: index_inv_def)
  show "\<forall>e \<in> set (m_orderMap b). snd e = a \<longrightarrow> fst e = i"
  proof (intro ballI impI)
    fix e assume e: "e \<in> set (m_orderMap b)" "snd e = a"
    have "inj_on snd (set (m_orderMap b))" using d by (simp add: distinct_map)
    then have "e = (i, a)" using e mem inj_onD[of snd "set (m_orderMap b)" e "(i, a)"] by simp
    then show "fst e = i" by simp
  qed
qed

subsection \<open>\<^verbatim>\<open>modifyOrderPrice\<close>\<close>

lemma set_side_levels_twice [simp]:
  "set_side_levels s m' (set_side_levels s m b) = set_side_levels s m' b"
  by (cases s) (simp_all add: set_side_levels_def)

lemma listed_level:
  assumes "book_inv b" "levels_of a b = [(s, p)]"
  shows "\<exists>l. map_of (side_levels s b) p = Some l \<and> a \<in> set (orders l) \<and> distinct (orders l)"
proof -
  let ?P = "\<lambda>e. a \<in> set (orders (snd e))"
  have "(s, p) \<in> set (levels_of a b)" using assms(2) by simp
  then have "\<exists>e \<in> set (side_levels s b). ?P e \<and> fst e = p"
    by (cases s) (auto simp: levels_of_sides)
  then obtain e where e: "e \<in> set (side_levels s b)" "?P e" "fst e = p" by blast
  have si: "side_inv (heap b) (m_orderMap b) s (side_levels s b)" using assms(1) by (rule book_inv_side)
  have "map_of (side_levels s b) p = Some (snd e)" using side_inv_mem_lookup[OF si e(1)] e(3) by simp
  moreover have "distinct (orders (snd e))" using si e(1) by (auto simp: side_inv_def level_ok_def)
  ultimately show ?thesis using e(2) by blast
qed

lemma modifyOrderPrice_active:
  assumes inv: "book_inv b" and lk: "map_of (m_orderMap b) i = Some a"
    and act: "isActive (deref (heap b) a)"
  shows "book_inv (snd (modifyOrderPrice i np b))"
    and "m_orderMap (snd (modifyOrderPrice i np b)) = m_orderMap b"
    and "fst (modifyOrderPrice i np b) = fst (modifyPrice np (deref (heap b) a))"
    and "fst (modifyOrderPrice i np b) \<Longrightarrow>
           levels_of a (snd (modifyOrderPrice i np b)) = [(m_side (deref (heap b) a), np)]
           \<and> heap (snd (modifyOrderPrice i np b)) = (heap b)(a \<mapsto> (deref (heap b) a)\<lparr>m_price := np\<rparr>)"
    and "\<not> fst (modifyOrderPrice i np b) \<Longrightarrow>
           levels_of a (snd (modifyOrderPrice i np b))
             = [(m_side (deref (heap b) a), m_price (deref (heap b) a))]
           \<and> heap (snd (modifyOrderPrice i np b)) = heap b"
proof -
  let ?ord = "deref (heap b) a"
  let ?b1 = "removeFromBook a b"
  let ?r = "modifyPrice np ?ord"
  let ?b2 = "?b1\<lparr>heap := (heap ?b1)(a \<mapsto> snd ?r)\<rparr>"
  have inv1: "book_inv ?b1" using inv by (rule removeFromBook_inv)
  have un1: "levels_of a ?b1 = []" using inv by (rule removeFromBook_unlisted)
  have mem: "a \<in> snd ` set (m_orderMap b)" using index_lookup(1)[OF inv lk] .
  obtain ord0 where o0: "heap b a = Some ord0" "m_id ord0 = i" using index_lookup(2)[OF inv lk] by blast
  have ord: "?ord = ord0" using o0 by (simp add: deref_def)
  have ids: "\<forall>e \<in> set (m_orderMap b). snd e = a \<longrightarrow> fst e = i" using index_lookup(3)[OF inv lk] .
  have res: "modifyOrderPrice i np b =
      (if \<not> fst ?r then (False, addToBook a ?b1) else (True, addToBook a ?b2))"
    using lk act by (simp add: modifyOrderPrice_def Let_def)
  have fail_inv: "book_inv (addToBook a ?b1)"
    using inv1 mem un1 by (intro addToBook_inv) simp_all
  have id_r: "m_id (snd ?r) = i" using o0 ord by (simp add: modifyPrice_def)
  have inv2: "book_inv ?b2"
    using inv1 un1 ids id_r by (intro heap_update_unlisted_inv) auto
  have succ_inv: "book_inv (addToBook a ?b2)"
    using inv2 mem un1 by (intro addToBook_inv) simp_all
  show "book_inv (snd (modifyOrderPrice i np b))" using fail_inv succ_inv by (simp add: res)
  show "m_orderMap (snd (modifyOrderPrice i np b)) = m_orderMap b" by (simp add: res)
  show "fst (modifyOrderPrice i np b) = fst ?r" by (simp add: res)
  show "levels_of a (snd (modifyOrderPrice i np b)) = [(m_side ?ord, np)]
           \<and> heap (snd (modifyOrderPrice i np b)) = (heap b)(a \<mapsto> ?ord\<lparr>m_price := np\<rparr>)"
    if "fst (modifyOrderPrice i np b)"
  proof -
    have ok: "fst ?r" using that by (simp add: res split: if_splits)
    then have sr: "snd ?r = ?ord\<lparr>m_price := np\<rparr>" by (auto simp: modifyPrice_def split: if_splits)
    have "levels_of a (addToBook a ?b2) = [(m_side (deref (heap ?b2) a), m_price (deref (heap ?b2) a))]"
      using un1 by (intro addToBook_listed) simp
    then show ?thesis using ok sr by (simp add: res deref_def)
  qed
  show "levels_of a (snd (modifyOrderPrice i np b)) = [(m_side ?ord, m_price ?ord)]
           \<and> heap (snd (modifyOrderPrice i np b)) = heap b"
    if "\<not> fst (modifyOrderPrice i np b)"
  proof -
    have nok: "\<not> fst ?r" using that by (simp add: res split: if_splits)
    have "levels_of a (addToBook a ?b1) = [(m_side (deref (heap ?b1) a), m_price (deref (heap ?b1) a))]"
      using un1 by (rule addToBook_listed)
    then show ?thesis using nok by (simp add: res)
  qed
qed


subsection \<open>The example book satisfies the invariant\<close>

lemma book_example_inv: "book_inv book_example"
  by (simp add: book_inv_def index_inv_def side_inv_def level_ok_def book_example_def
        deref_def getRemainingQty_def greater_price_def less_price_def side_lt_def)

lemma book_example_fields:
  "map_of (m_orderMap book_example) 1 = Some 10"
  "map_of (m_orderMap book_example) 2 = Some 11"
  "map_of (m_orderMap book_example) 3 = Some 12"
  "map_of (m_orderMap book_example) 7 = None"
  "deref (heap book_example) 10 = \<lparr>m_id = 1, m_side = BUY, m_type = LIMIT, m_price = 100,
      m_quantity = 50, m_filledQty = 20, m_status = PARTIAL\<rparr>"
  "deref (heap book_example) 11 = \<lparr>m_id = 2, m_side = BUY, m_type = LIMIT, m_price = 100,
      m_quantity = 50, m_filledQty = 0, m_status = NEW\<rparr>"
  "deref (heap book_example) 12 = \<lparr>m_id = 3, m_side = SELL, m_type = LIMIT, m_price = 101,
      m_quantity = 75, m_filledQty = 0, m_status = NEW\<rparr>"
  "side_levels BUY book_example = [(100, \<lparr>price = 100, totalQuantity = 80, orders = [10, 11]\<rparr>)]"
  "side_levels SELL book_example = [(101, \<lparr>price = 101, totalQuantity = 75, orders = [12]\<rparr>)]"
  by (simp_all add: book_example_def deref_def side_levels_def)

text \<open>
  C7.  On a book that satisfies the invariant, \<^verbatim>\<open>modifyOrderPrice\<close> leaves the
  book unchanged for an unknown or an inactive id.  For the id of an active order it
  keeps the invariant and the index entry, succeeds exactly when the order-level
  \<^verbatim>\<open>modifyPrice\<close> does, and afterwards the order is listed in exactly one
  price level, once: the level of its side at the new price after a success, the
  level at its original price after a failure.
\<close>

theorem modifyOrderPrice_keeps_order_listed:
  assumes "book_inv b"
  shows "(map_of (m_orderMap b) i = None \<longrightarrow> modifyOrderPrice i np b = (False, b))
     \<and> (\<forall>a. map_of (m_orderMap b) i = Some a \<and> \<not> isActive (deref (heap b) a)
            \<longrightarrow> modifyOrderPrice i np b = (False, b))
     \<and> (\<forall>a. map_of (m_orderMap b) i = Some a \<and> isActive (deref (heap b) a) \<longrightarrow>
            book_inv (snd (modifyOrderPrice i np b))
          \<and> map_of (m_orderMap (snd (modifyOrderPrice i np b))) i = Some a
          \<and> fst (modifyOrderPrice i np b) = fst (modifyPrice np (deref (heap b) a))
          \<and> (fst (modifyOrderPrice i np b) \<longrightarrow>
                levels_of a (snd (modifyOrderPrice i np b)) = [(m_side (deref (heap b) a), np)]
              \<and> deref (heap (snd (modifyOrderPrice i np b))) a = (deref (heap b) a)\<lparr>m_price := np\<rparr>
              \<and> (\<exists>l. map_of (side_levels (m_side (deref (heap b) a)) (snd (modifyOrderPrice i np b))) np
                         = Some l \<and> a \<in> set (orders l) \<and> distinct (orders l)))
          \<and> (\<not> fst (modifyOrderPrice i np b) \<longrightarrow>
                levels_of a (snd (modifyOrderPrice i np b))
                  = [(m_side (deref (heap b) a), m_price (deref (heap b) a))]
              \<and> heap (snd (modifyOrderPrice i np b)) = heap b
              \<and> (\<exists>l. map_of (side_levels (m_side (deref (heap b) a)) (snd (modifyOrderPrice i np b)))
                           (m_price (deref (heap b) a))
                         = Some l \<and> a \<in> set (orders l) \<and> distinct (orders l))))"
proof (intro conjI allI impI)
  show "modifyOrderPrice i np b = (False, b)" if "map_of (m_orderMap b) i = None"
    using that by (simp add: modifyOrderPrice_def)
  show "modifyOrderPrice i np b = (False, b)"
    if "map_of (m_orderMap b) i = Some a \<and> \<not> isActive (deref (heap b) a)" for a
    using that by (simp add: modifyOrderPrice_def)
next
  fix a assume h: "map_of (m_orderMap b) i = Some a \<and> isActive (deref (heap b) a)"
  note m = modifyOrderPrice_active[OF assms conjunct1[OF h] conjunct2[OF h], of np]
  show "book_inv (snd (modifyOrderPrice i np b))" by (rule m(1))
  show "map_of (m_orderMap (snd (modifyOrderPrice i np b))) i = Some a" using h by (simp add: m(2))
  show "fst (modifyOrderPrice i np b) = fst (modifyPrice np (deref (heap b) a))" by (rule m(3))
  {
    assume ok: "fst (modifyOrderPrice i np b)"
    show "levels_of a (snd (modifyOrderPrice i np b)) = [(m_side (deref (heap b) a), np)]"
      using m(4)[OF ok] by simp
    show "deref (heap (snd (modifyOrderPrice i np b))) a = (deref (heap b) a)\<lparr>m_price := np\<rparr>"
      using m(4)[OF ok] by (simp add: deref_def)
    show "\<exists>l. map_of (side_levels (m_side (deref (heap b) a)) (snd (modifyOrderPrice i np b))) np
                         = Some l \<and> a \<in> set (orders l) \<and> distinct (orders l)"
      using listed_level[OF m(1)] m(4)[OF ok] by simp
  }
  {
    assume nok: "\<not> fst (modifyOrderPrice i np b)"
    show "levels_of a (snd (modifyOrderPrice i np b))
                  = [(m_side (deref (heap b) a), m_price (deref (heap b) a))]"
      using m(5)[OF nok] by simp
    show "heap (snd (modifyOrderPrice i np b)) = heap b" using m(5)[OF nok] by simp
    show "\<exists>l. map_of (side_levels (m_side (deref (heap b) a)) (snd (modifyOrderPrice i np b)))
                           (m_price (deref (heap b) a))
                         = Some l \<and> a \<in> set (orders l) \<and> distinct (orders l)"
      using listed_level[OF m(1)] m(5)[OF nok] by simp
  }
qed

theorem modifyOrderPrice_keeps_order_listed_witness:
  "book_inv book_example
   \<and> map_of (m_orderMap book_example) 7 = None
   \<and> modifyOrderPrice 7 99 book_example = (False, book_example)
   \<and> map_of (m_orderMap book_example) 2 = Some 11
   \<and> isActive (deref (heap book_example) 11)
   \<and> fst (modifyOrderPrice 2 99 book_example)
   \<and> levels_of 11 (snd (modifyOrderPrice 2 99 book_example)) = [(BUY, 99)]
   \<and> map_of (m_orderMap book_example) 1 = Some 10
   \<and> isActive (deref (heap book_example) 10)
   \<and> \<not> fst (modifyOrderPrice 1 99 book_example)
   \<and> levels_of 10 (snd (modifyOrderPrice 1 99 book_example)) = [(BUY, 100)]"
proof -
  note t = modifyOrderPrice_keeps_order_listed[OF book_example_inv]
  have a1: "isActive (deref (heap book_example) 11)" "isActive (deref (heap book_example) 10)"
    by (simp_all add: book_example_fields isActive_def)
  have ok: "fst (modifyPrice 99 (deref (heap book_example) 11))"
    by (simp add: book_example_fields modifyPrice_def)
  have nok: "\<not> fst (modifyPrice 99 (deref (heap book_example) 10))"
    by (simp add: book_example_fields modifyPrice_def)
  have c0: "modifyOrderPrice 7 99 book_example = (False, book_example)"
    using t[of 7 99] by (simp add: book_example_fields)
  have c1: "fst (modifyOrderPrice 2 99 book_example)
          \<and> levels_of 11 (snd (modifyOrderPrice 2 99 book_example)) = [(BUY, 99)]"
    using t[of 2 99] a1 ok by (simp add: book_example_fields)
  have c2: "\<not> fst (modifyOrderPrice 1 99 book_example)
          \<and> levels_of 10 (snd (modifyOrderPrice 1 99 book_example)) = [(BUY, 100)]"
    using t[of 1 99] a1 nok by (simp add: book_example_fields)
  show ?thesis using book_example_inv c0 c1 c2 a1 by (simp add: book_example_fields)
qed

text \<open>
  C10.  Let A be active and partially filled (filled > 0), listed at the front of its
  level and followed by at least one more order.  Then \<^verbatim>\<open>modifyOrderPrice\<close> on
  A's id fails, and it leaves A's level with A moved behind every other order of the
  level: the rest of the list in its old order, then A.  Nothing else of the book
  changes, and A itself (its price included) is as before.
\<close>

theorem failed_modifyOrderPrice_moves_to_back:
  assumes "book_inv b" "map_of (m_orderMap b) i = Some a"
    and "isActive (deref (heap b) a)" "0 < m_filledQty (deref (heap b) a)"
    and "map_of (side_levels (m_side (deref (heap b) a)) b) (m_price (deref (heap b) a)) = Some l"
    and "orders l = a # rest" "rest \<noteq> []"
  shows "modifyOrderPrice i np b =
           (False, set_side_levels (m_side (deref (heap b) a))
                     (map_put (side_lt (m_side (deref (heap b) a))) (m_price (deref (heap b) a))
                        (l\<lparr>orders := rest @ [a]\<rparr>) (side_levels (m_side (deref (heap b) a)) b)) b)
       \<and> map_of (side_levels (m_side (deref (heap b) a)) (snd (modifyOrderPrice i np b)))
                (m_price (deref (heap b) a)) = Some (l\<lparr>orders := rest @ [a]\<rparr>)
       \<and> deref (heap (snd (modifyOrderPrice i np b))) a = deref (heap b) a"
proof -
  let ?ord = "deref (heap b) a"
  let ?s = "m_side ?ord" and ?p = "m_price ?ord"
  let ?m = "side_levels ?s b"
  let ?l1 = "l\<lparr>totalQuantity := totalQuantity l - getRemainingQty ?ord, orders := rest\<rparr>"
  let ?l2 = "l\<lparr>orders := rest @ [a]\<rparr>"
  let ?b1 = "set_side_levels ?s (map_put (side_lt ?s) ?p ?l1 ?m) b"
  have sl: "strict_lin (side_lt ?s)" by (rule strict_lin_side_lt)
  have so: "sorted_wrt (side_lt ?s) (map fst ?m)"
    using book_inv_side[OF assms(1)] by (rule side_inv_sorted)
  have rm: "removeFromBook a b = ?b1"
    using assms(5,6,7) by (simp add: removeFromBook_side Let_def PriceLevel_removeOrder_def)
  have fail: "modifyPrice np ?ord = (False, ?ord)"
    using assms(4) by (simp add: modifyPrice_def)
  have lk1: "map_of (map_put (side_lt ?s) ?p ?l1 ?m) ?p = Some ?l1"
    by (simp add: map_of_map_put[OF sl so])
  have l12: "PriceLevel_addOrder (heap b) a ?l1 = ?l2"
    by (simp add: PriceLevel_addOrder_def)
  have add: "addToBook a ?b1 = set_side_levels ?s (map_put (side_lt ?s) ?p ?l2 ?m) b"
    by (simp add: addToBook_side Let_def lk1 l12 map_put_twice[OF sl so])
  have res: "modifyOrderPrice i np b = (False, set_side_levels ?s (map_put (side_lt ?s) ?p ?l2 ?m) b)"
    using assms(2,3) by (simp add: modifyOrderPrice_def Let_def rm fail add)
  show ?thesis by (simp add: res map_of_map_put[OF sl so])
qed

theorem failed_modifyOrderPrice_moves_to_back_witness:
  "book_inv book_example
   \<and> map_of (m_orderMap book_example) 1 = Some 10
   \<and> isActive (deref (heap book_example) 10)
   \<and> 0 < m_filledQty (deref (heap book_example) 10)
   \<and> map_of (side_levels BUY book_example) 100 = Some \<lparr>price = 100, totalQuantity = 80, orders = [10, 11]\<rparr>
   \<and> \<not> fst (modifyOrderPrice 1 99 book_example)
   \<and> side_levels BUY (snd (modifyOrderPrice 1 99 book_example))
        = [(100, \<lparr>price = 100, totalQuantity = 80, orders = [11, 10]\<rparr>)]"
proof -
  have a: "isActive (deref (heap book_example) 10)" "0 < m_filledQty (deref (heap book_example) 10)"
    by (simp_all add: book_example_fields isActive_def)
  have l: "map_of (side_levels (m_side (deref (heap book_example) 10)) book_example)
             (m_price (deref (heap book_example) 10))
           = Some \<lparr>price = 100, totalQuantity = 80, orders = [10, 11]\<rparr>"
    by (simp add: book_example_fields)
  have "modifyOrderPrice 1 99 book_example =
          (False, set_side_levels BUY [(100, \<lparr>price = 100, totalQuantity = 80, orders = [11, 10]\<rparr>)] book_example)"
    using failed_modifyOrderPrice_moves_to_back[OF book_example_inv book_example_fields(1) a l, of "[11]" 99]
    by (simp add: book_example_fields side_lt_def greater_price_def)
  then show ?thesis using book_example_inv a by (simp add: book_example_fields)
qed


subsection \<open>\<^verbatim>\<open>addOrder\<close> followed by \<^verbatim>\<open>cancelOrder\<close>\<close>

lemma listed_below_brk:
  assumes "book_inv b" "map_of (side_levels s b) p = Some l" "a \<in> set (orders l)"
  shows "a < brk b"
proof -
  have ok: "level_ok (heap b) (m_orderMap b) s (p, l)"
    using book_inv_side[OF assms(1)] assms(2) by (rule side_inv_lookup)
  then have "a \<in> snd ` set (m_orderMap b)" using assms(3) by (simp add: level_ok_def)
  then obtain e where e: "e \<in> set (m_orderMap b)" "snd e = a" by auto
  then show ?thesis using book_inv_index[OF assms(1)] by (auto simp: index_inv_def)
qed

lemma level_nonempty:
  assumes "book_inv b" "map_of (side_levels s b) p = Some l"
  shows "orders l \<noteq> []"
  using side_inv_lookup[OF book_inv_side[OF assms(1)] assms(2)] by (simp add: level_ok_def)

lemma length_update_fresh:
  "k \<notin> fst ` set al \<Longrightarrow> length (AList.update k v al) = Suc (length al)"
  by (induction al) auto

lemma length_delete_present:
  "distinct (map fst al) \<Longrightarrow> k \<in> fst ` set al \<Longrightarrow> Suc (length (AList.delete k al)) = length al"
proof (induction al)
  case Nil
  then show ?case by simp
next
  case (Cons e al)
  show ?case
  proof (cases "fst e = k")
    case True
    then have "k \<notin> fst ` set al" using Cons.prems(1) by auto
    then show ?thesis using True by simp
  next
    case False
    then show ?thesis using Cons by auto
  qed
qed

lemma removeFromBook_addToBook:
  assumes so: "sorted_wrt (side_lt (m_side (deref (heap b) a))) (map fst (side_levels (m_side (deref (heap b) a)) b))"
    and lv: "\<forall>l. map_of (side_levels (m_side (deref (heap b) a)) b) (m_price (deref (heap b) a)) = Some l
               \<longrightarrow> orders l \<noteq> [] \<and> a \<notin> set (orders l)"
  shows "removeFromBook a (addToBook a b) = b"
proof -
  define s where "s = m_side (deref (heap b) a)"
  define p where "p = m_price (deref (heap b) a)"
  define m where "m = side_levels s b"
  define l0 where "l0 = (case map_of m p of
                           None \<Rightarrow> \<lparr>price = p, totalQuantity = 0, orders = []\<rparr> | Some l \<Rightarrow> l)"
  define l1 where "l1 = PriceLevel_addOrder (heap b) a l0"
  define m1 where "m1 = map_put (side_lt s) p l1 m"
  have sl: "strict_lin (side_lt s)" by (rule strict_lin_side_lt)
  have so': "sorted_wrt (side_lt s) (map fst m)" using so by (simp add: s_def m_def)
  have add: "addToBook a b = set_side_levels s m1 b"
    by (simp add: addToBook_side Let_def s_def p_def m_def l0_def l1_def m1_def
          cong: option.case_cong)
  have notin: "a \<notin> set (orders l0)"
    using lv by (cases "map_of m p") (simp_all add: l0_def s_def p_def m_def)
  have rem1: "remove1 a (orders l0 @ [a]) = orders l0"
    using notin by (simp add: remove1_append)
  have l10: "PriceLevel_removeOrder (heap b) a l1 = l0"
    by (simp add: PriceLevel_removeOrder_def PriceLevel_addOrder_def rem1 l1_def)
  have lk1: "map_of m1 p = Some l1"
    by (simp add: m1_def map_of_map_put[OF sl so'])
  have restore: "(if orders l0 = [] then AList.delete p m1 else map_put (side_lt s) p l0 m1) = m"
  proof (cases "map_of m p")
    case None
    then show ?thesis by (simp add: l0_def m1_def delete_map_put_fresh[OF sl so'])
  next
    case (Some l)
    then have "orders l \<noteq> []" using lv by (simp add: s_def p_def m_def)
    then show ?thesis using Some
      by (simp add: l0_def m1_def map_put_twice[OF sl so'] map_put_same[OF sl so'])
  qed
  have "removeFromBook a (set_side_levels s m1 b) =
          (if orders l0 = [] then set_side_levels s (AList.delete p m1) b
           else set_side_levels s (map_put (side_lt s) p l0 m1) b)"
    unfolding removeFromBook_side Let_def
    by (simp add: s_def[symmetric] p_def[symmetric] lk1 l10)
  also have "\<dots> = set_side_levels s m b" using restore by (simp split: if_splits)
  also have "\<dots> = b" by (simp add: m_def set_side_levels_same)
  finally show ?thesis by (simp add: add)
qed

lemma addOrder_then_cancelOrder:
  assumes inv: "book_inv b" and fresh: "map_of (m_orderMap b) (m_id ord) = None"
    and act: "isActive ord"
  shows "fst (addOrder ord b)"
    and "cancelOrder (m_id ord) (snd (addOrder ord b)) =
           (True, b\<lparr>heap := (heap b)(brk b \<mapsto> ord\<lparr>m_status := CANCELLED\<rparr>), brk := Suc (brk b),
                    m_orderMap := AList.update (m_id ord) (brk b) (m_orderMap b)\<rparr>)"
proof -
  define b2 where "b2 = b\<lparr>heap := (heap b)(brk b \<mapsto> ord), brk := Suc (brk b),
                          m_orderMap := AList.update (m_id ord) (brk b) (m_orderMap b)\<rparr>"
  have add: "addOrder ord b = (True, addToBook (brk b) b2)"
    using fresh by (simp add: addOrder_def Let_def b2_def)
  show "fst (addOrder ord b)" by (simp add: add)
  have d2: "deref (heap b2) (brk b) = ord" by (simp add: deref_def b2_def)
  have sd: "\<And>s. side_levels s b2 = side_levels s b" by (simp add: b2_def)
  have so: "sorted_wrt (side_lt (m_side ord)) (map fst (side_levels (m_side ord) b))"
    using book_inv_side[OF inv] by (rule side_inv_sorted)
  have lv: "\<forall>l. map_of (side_levels (m_side ord) b) (m_price ord) = Some l
               \<longrightarrow> orders l \<noteq> [] \<and> brk b \<notin> set (orders l)"
  proof (intro allI impI)
    fix l assume l: "map_of (side_levels (m_side ord) b) (m_price ord) = Some l"
    have "\<forall>x \<in> set (orders l). x < brk b" using listed_below_brk[OF inv l] by blast
    then show "orders l \<noteq> [] \<and> brk b \<notin> set (orders l)"
      using level_nonempty[OF inv l] by auto
  qed
  have rm: "removeFromBook (brk b) (addToBook (brk b) b2) = b2"
    by (rule removeFromBook_addToBook) (simp_all add: d2 sd so lv)
  have lk: "map_of (m_orderMap b2) (m_id ord) = Some (brk b)"
    by (simp add: b2_def update_conv')
  have "cancelOrder (m_id ord) (addToBook (brk b) b2) =
          (True, b2\<lparr>heap := (heap b2)(brk b \<mapsto> cancel ord)\<rparr>)"
    using act by (simp add: cancelOrder_def lk Let_def rm d2)
  then show "cancelOrder (m_id ord) (snd (addOrder ord b)) =
           (True, b\<lparr>heap := (heap b)(brk b \<mapsto> ord\<lparr>m_status := CANCELLED\<rparr>), brk := Suc (brk b),
                    m_orderMap := AList.update (m_id ord) (brk b) (m_orderMap b)\<rparr>)"
    using act by (simp add: add cancel_def b2_def)
qed

text \<open>
  C5, as the code has it.  On a book that satisfies the invariant, adding an active order
  whose id is not in the index and cancelling it at once succeeds twice and restores
  both sides of the book, so the two level counts are what they were; the cancelled
  record stays in the id index, so \<^verbatim>\<open>getTotalOrderCount\<close> is one more than before.
\<close>

theorem addOrder_cancelOrder_round_trip:
  assumes "book_inv b" "map_of (m_orderMap b) (m_id ord) = None" "isActive ord"
  shows "fst (addOrder ord b)
     \<and> fst (cancelOrder (m_id ord) (snd (addOrder ord b)))
     \<and> getBidLevelCount (snd (cancelOrder (m_id ord) (snd (addOrder ord b)))) = getBidLevelCount b
     \<and> getAskLevelCount (snd (cancelOrder (m_id ord) (snd (addOrder ord b)))) = getAskLevelCount b
     \<and> m_bids (snd (cancelOrder (m_id ord) (snd (addOrder ord b)))) = m_bids b
     \<and> m_asks (snd (cancelOrder (m_id ord) (snd (addOrder ord b)))) = m_asks b
     \<and> getTotalOrderCount (snd (cancelOrder (m_id ord) (snd (addOrder ord b))))
         = getTotalOrderCount b + 1"
proof -
  have "m_id ord \<notin> fst ` set (m_orderMap b)" using assms(2) by (simp add: map_of_eq_None_iff)
  then have "length (AList.update (m_id ord) (brk b) (m_orderMap b)) = Suc (length (m_orderMap b))"
    by (rule length_update_fresh)
  then show ?thesis
    using addOrder_then_cancelOrder[OF assms]
    by (simp add: getBidLevelCount_def getAskLevelCount_def getTotalOrderCount_def)
qed

end
